theory Spec2Isabelle
  imports
    Main
    "HOL-Library.Word"
    "HOL-Library.Signed_Division"
    "HOL-Library.Sublist"
    "HOL-Library.Char_ord"
    "HOL-Library.List_Lexorder"
    "HOL-Library.AList"
begin

section \<open>Slash-separated paths (Go packages path and path/filepath on Unix)\<close>

text \<open>
  The program builds every remote and local path with \<open>path.Join\<close>, \<open>path.Dir\<close>,
  \<open>filepath.Abs\<close> and a byte slice \<open>visitedPath[len(absLocal):]\<close>. These library
  functions are modelled on strings by their documented rules: \<open>Clean\<close> replaces runs
  of slashes by one slash, drops every \<open>.\<close> element, resolves every inner \<open>..\<close>
  element against the element before it, drops \<open>..\<close> elements that begin a rooted
  path, and returns \<open>.\<close> for an empty result.
\<close>

type_synonym path = string

text \<open>\<open>strings.Split(s, "/")\<close>: the pieces between slashes, never the empty list.\<close>

fun split_slash :: "string \<Rightarrow> string list" where
  "split_slash [] = [[]]"
| "split_slash (c # cs) =
     (if c = CHR ''/'' then [] # split_slash cs
      else (c # hd (split_slash cs)) # tl (split_slash cs))"

text \<open>\<open>strings.Join(elems, "/")\<close>.\<close>

fun join_slash :: "string list \<Rightarrow> string" where
  "join_slash [] = []"
| "join_slash [c] = c"
| "join_slash (c # d # ds) = c @ CHR ''/'' # join_slash (d # ds)"

text \<open>
  One element of the path met by \<open>Clean\<close>, against the elements written so far:
  an empty element and \<open>.\<close> are skipped; \<open>..\<close> removes the last written element when
  there is one that is not itself \<open>..\<close>, is dropped at the root of a rooted path, and
  is written out otherwise; any other element is written.
\<close>

definition clean_step :: "bool \<Rightarrow> string list \<Rightarrow> string \<Rightarrow> string list" where
  "clean_step rooted out e =
     (if e = [] \<or> e = ''.'' then out
      else if e = ''..'' then
        (if out \<noteq> [] \<and> last out \<noteq> ''..'' then butlast out
         else if rooted then out
         else out @ [''..''])
      else out @ [e])"

definition clean_elems :: "bool \<Rightarrow> string \<Rightarrow> string list" where
  "clean_elems rooted p = foldl (clean_step rooted) [] (split_slash p)"

definition path_Clean :: "path \<Rightarrow> path" where
  "path_Clean p =
     (if p = [] then ''.''
      else if hd p = CHR ''/'' then CHR ''/'' # join_slash (clean_elems True p)
      else if clean_elems False p = [] then ''.''
      else join_slash (clean_elems False p))"

text \<open>\<open>path.Split\<close>, first component: everything up to and including the last slash.\<close>

definition dir_part :: "path \<Rightarrow> path" where
  "dir_part p = rev (dropWhile (\<lambda>c. c \<noteq> CHR ''/'') (rev p))"

definition path_Dir :: "path \<Rightarrow> path" where
  "path_Dir p = path_Clean (dir_part p)"

text \<open>
  \<open>path.Join\<close>: empty elements are ignored, the rest are joined by slashes and
  cleaned; the result is empty when every element is empty.
\<close>

definition path_Join :: "path list \<Rightarrow> path" where
  "path_Join elems =
     (let es = filter (\<lambda>e. e \<noteq> []) elems
      in if es = [] then [] else path_Clean (join_slash es))"

text \<open>\<open>filepath.Abs\<close> on Unix, with the working directory as a parameter.\<close>

definition filepath_Abs :: "path \<Rightarrow> path \<Rightarrow> path" where
  "filepath_Abs wd p =
     (if p \<noteq> [] \<and> hd p = CHR ''/'' then path_Clean p else path_Join [wd, p])"

text \<open>
  A name of one path element, as both a directory listing and the remote service
  give them: not empty, not \<open>.\<close> or \<open>..\<close>, and without a slash.
\<close>

definition valid_name :: "string \<Rightarrow> bool" where
  "valid_name e = (e \<noteq> [] \<and> e \<noteq> ''.'' \<and> e \<noteq> ''..'' \<and> CHR ''/'' \<notin> set e)"

text \<open>The canonical absolute path with the given elements; \<open>/\<close> for none.\<close>

definition abs_path :: "string list \<Rightarrow> path" where
  "abs_path es = CHR ''/'' # join_slash es"

text \<open>A path is canonical and absolute when it is rooted and \<open>Clean\<close> leaves it alone.\<close>

definition canonical_abs :: "path \<Rightarrow> bool" where
  "canonical_abs p = (p \<noteq> [] \<and> hd p = CHR ''/'' \<and> path_Clean p = p)"

text \<open>The number of elements of a path: its non-empty pieces between slashes.\<close>

definition path_elems :: "path \<Rightarrow> nat" where
  "path_elems p = length (filter (\<lambda>e. e \<noteq> []) (split_slash p))"

section \<open>Instants (Go package time)\<close>

text \<open>
  A \<open>time.Time\<close> built by \<open>time.Unix\<close> (as \<open>os.Stat\<close> builds a modification time)
  is a count of seconds since the epoch and a nanosecond offset in \<open>[0, 10^9)\<close>, in
  the local zone and without a monotonic reading, so that \<open>==\<close> on two such values
  is equality of both numbers.
\<close>

record gotime =
  t_sec :: int
  t_nsec :: int

definition time_Unix :: "int \<Rightarrow> int \<Rightarrow> gotime" where
  "time_Unix sec nsec =
     (if nsec < 0 \<or> nsec \<ge> 1000000000 then
        (let n = nsec sdiv 1000000000;
             sec1 = sec + n;
             nsec1 = nsec - n * 1000000000
         in if nsec1 < 0 then \<lparr>t_sec = sec1 - 1, t_nsec = nsec1 + 1000000000\<rparr>
            else \<lparr>t_sec = sec1, t_nsec = nsec1\<rparr>)
      else \<lparr>t_sec = sec, t_nsec = nsec\<rparr>)"

definition time_After :: "gotime \<Rightarrow> gotime \<Rightarrow> bool" where
  "time_After t u = (t_sec t > t_sec u \<or> (t_sec t = t_sec u \<and> t_nsec t > t_nsec u))"

text \<open>
  The instant that a timestamp in milliseconds since the epoch denotes, without any
  rounding: the reference against which the program's own conversion is compared.
\<close>

definition instant_of_millis :: "int \<Rightarrow> gotime" where
  "instant_of_millis ms = \<lparr>t_sec = ms div 1000, t_nsec = (ms mod 1000) * 1000000\<rparr>"

section \<open>The remote namespace client (package zk) as the program sees it\<close>

type_synonym bytes = "8 word list"

text \<open>The errors of the client that the program tells apart, and some it does not.\<close>

datatype zk_error =
    ErrNoNode
  | ErrNodeExists
  | ErrBadVersion
  | ErrNotEmpty
  | ErrInvalidPath
  | ErrBadArguments
  | ErrNoAuth
  | ErrConnectionClosed

text \<open>
  The fields of \<open>zk.Stat\<close> that the program reads. \<open>Version\<close>, \<open>DataLength\<close> and
  \<open>NumChildren\<close> are 32-bit and \<open>Mtime\<close> is 64-bit in the client; the program only
  compares them with zero, passes them on, or divides \<open>Mtime\<close> by 1000, none of
  which can overflow, so they are integers here.
\<close>

record zk_stat =
  Version :: int
  Mtime :: int
  DataLength :: int
  NumChildren :: int

text \<open>
  A connection is the six calls the program makes, each a function of the state of
  the service (of any type \<open>'s\<close>) that answers and gives the state after the call.
  \<open>Create\<close> is always called with flags \<open>0\<close> and the access list
  \<open>zk.AuthACL(zk.PermAll)\<close>, which are left out.
\<close>

record 's conn =
  zk_Children :: "path \<Rightarrow> 's \<Rightarrow> (zk_error + string list \<times> zk_stat) \<times> 's"
  zk_Get :: "path \<Rightarrow> 's \<Rightarrow> (zk_error + bytes \<times> zk_stat) \<times> 's"
  zk_Create :: "path \<Rightarrow> bytes \<Rightarrow> 's \<Rightarrow> (zk_error + path) \<times> 's"
  zk_Exists :: "path \<Rightarrow> 's \<Rightarrow> (zk_error + bool \<times> zk_stat) \<times> 's"
  zk_Set :: "path \<Rightarrow> bytes \<Rightarrow> int \<Rightarrow> 's \<Rightarrow> (zk_error + zk_stat) \<times> 's"
  zk_Delete :: "path \<Rightarrow> int \<Rightarrow> 's \<Rightarrow> zk_error option \<times> 's"

section \<open>The local file system (packages os and io/ioutil)\<close>

datatype fs_error = ENOENT | EEXIST | ENOTDIR | EISDIR | EIO

text \<open>
  An entry is a regular file with its content, a directory, or anything else
  (a symbolic link, a device, a socket), and carries its modification time.
\<close>

datatype lkind = RegularFile bytes | Directory | Irregular

record lentry =
  kind :: lkind
  modTime :: gotime

definition IsDir :: "lentry \<Rightarrow> bool" where
  "IsDir e = (case kind e of Directory \<Rightarrow> True | _ \<Rightarrow> False)"

definition IsRegular :: "lentry \<Rightarrow> bool" where
  "IsRegular e = (case kind e of RegularFile b \<Rightarrow> True | _ \<Rightarrow> False)"

text \<open>
  The file system is the list of its entries by canonical absolute path, the working
  directory of the process, and the time that the system stamps on what it writes.
\<close>

record localfs =
  entries :: "(path \<times> lentry) list"
  wd :: path
  clock :: gotime

definition lookup_entry :: "localfs \<Rightarrow> path \<Rightarrow> lentry option" where
  "lookup_entry fs p = (if p = [] then None else map_of (entries fs) (filepath_Abs (wd fs) p))"

definition store_entry :: "path \<Rightarrow> lentry \<Rightarrow> localfs \<Rightarrow> localfs" where
  "store_entry p e fs = fs\<lparr>entries := AList.update (filepath_Abs (wd fs) p) e (entries fs)\<rparr>"

text \<open>\<open>os.Stat\<close> and \<open>os.Lstat\<close> (the model has no link to follow).\<close>

definition os_Stat :: "localfs \<Rightarrow> path \<Rightarrow> fs_error + lentry" where
  "os_Stat fs p = (case lookup_entry fs p of None \<Rightarrow> Inl ENOENT | Some e \<Rightarrow> Inr e)"

definition os_Lstat :: "localfs \<Rightarrow> path \<Rightarrow> fs_error + lentry" where
  "os_Lstat fs p = (case lookup_entry fs p of None \<Rightarrow> Inl ENOENT | Some e \<Rightarrow> Inr e)"

text \<open>What creating an entry at \<open>p\<close> needs of the directory that is to hold it.\<close>

definition parent_check :: "localfs \<Rightarrow> path \<Rightarrow> fs_error option" where
  "parent_check fs p =
     (case lookup_entry fs (path_Dir (filepath_Abs (wd fs) p)) of
        None \<Rightarrow> Some ENOENT
      | Some d \<Rightarrow> if IsDir d then None else Some ENOTDIR)"

definition os_Mkdir :: "localfs \<Rightarrow> path \<Rightarrow> fs_error option \<times> localfs" where
  "os_Mkdir fs p =
     (if p = [] then (Some ENOENT, fs)
      else case lookup_entry fs p of
        Some e \<Rightarrow> (Some EEXIST, fs)
      | None \<Rightarrow>
          (case parent_check fs p of
             Some err \<Rightarrow> (Some err, fs)
           | None \<Rightarrow> (None, store_entry p \<lparr>kind = Directory, modTime = clock fs\<rparr> fs)))"

text \<open>
  \<open>ioutil.WriteFile\<close>: creates the file or replaces the content of a regular file,
  and the system stamps the current time on it.
\<close>

definition ioutil_WriteFile :: "localfs \<Rightarrow> path \<Rightarrow> bytes \<Rightarrow> fs_error option \<times> localfs" where
  "ioutil_WriteFile fs p data =
     (if p = [] then (Some ENOENT, fs)
      else case lookup_entry fs p of
        Some e \<Rightarrow>
          (case kind e of
             RegularFile old \<Rightarrow>
               (None, store_entry p \<lparr>kind = RegularFile data, modTime = clock fs\<rparr> fs)
           | Directory \<Rightarrow> (Some EISDIR, fs)
           | Irregular \<Rightarrow> (Some EIO, fs))
      | None \<Rightarrow>
          (case parent_check fs p of
             Some err \<Rightarrow> (Some err, fs)
           | None \<Rightarrow> (None, store_entry p \<lparr>kind = RegularFile data, modTime = clock fs\<rparr> fs)))"

text \<open>\<open>os.Chtimes\<close>; the access time is not part of the model.\<close>

definition os_Chtimes :: "localfs \<Rightarrow> path \<Rightarrow> gotime \<Rightarrow> gotime \<Rightarrow> fs_error option \<times> localfs" where
  "os_Chtimes fs p atime mtime =
     (case lookup_entry fs p of
        None \<Rightarrow> (Some ENOENT, fs)
      | Some e \<Rightarrow> (None, store_entry p (e\<lparr>modTime := mtime\<rparr>) fs))"

definition ioutil_ReadFile :: "localfs \<Rightarrow> path \<Rightarrow> fs_error + bytes" where
  "ioutil_ReadFile fs p =
     (case lookup_entry fs p of
        None \<Rightarrow> Inl ENOENT
      | Some e \<Rightarrow>
          (case kind e of
             RegularFile data \<Rightarrow> Inr data
           | Directory \<Rightarrow> Inl EISDIR
           | Irregular \<Rightarrow> Inl EIO))"

text \<open>The last element of a path, and the sorted names that a directory holds.\<close>

definition base_name :: "path \<Rightarrow> string" where
  "base_name p = last (split_slash p)"

definition readDirNames :: "localfs \<Rightarrow> path \<Rightarrow> string list" where
  "readDirNames fs dir =
     sort (map base_name
       (filter (\<lambda>q. q \<noteq> ''/'' \<and> path_Dir q = filepath_Abs (wd fs) dir) (map fst (entries fs))))"

text \<open>\<open>os.IsExist\<close> and \<open>os.IsNotExist\<close> on the errors of the model.\<close>

definition os_IsExist :: "fs_error \<Rightarrow> bool" where
  "os_IsExist e = (e = EEXIST)"

definition os_IsNotExist :: "fs_error \<Rightarrow> bool" where
  "os_IsNotExist e = (e = ENOENT)"

section \<open>What a run does: outcome, output and calls\<close>

datatype panic =
    PanicZk zk_error
  | PanicFs fs_error
  | PanicStr string
  | PanicNilDeref
  | PanicSliceBounds

text \<open>
  A call of the program returns to its caller, ends the process (\<open>log.Fatalf\<close> calls
  \<open>os.Exit(1)\<close>), or panics.
\<close>

datatype outcome = Returned | Exited int | Panicked panic

datatype zk_call =
    Children path
  | Get path
  | Create path bytes
  | Exists path
  | SetData path bytes int
  | Delete path int

datatype arg = AStr string | ATime gotime

text \<open>
  The trace of a run lists, in order, every call to the service with the error it
  answered, and every message with its format and arguments: \<open>log.Printf\<close> and
  \<open>log.Fatalf\<close> write to the standard logger, \<open>fmt.Printf\<close> to standard output.
  The line feed that ends a format is not written out here.
\<close>

datatype event =
    Zk zk_call "zk_error option"
  | LogPrintf string "arg list"
  | LogFatalf string "arg list"
  | FmtPrintf string "arg list"

record 's world =
  remote :: 's
  lfs :: localfs
  trace :: "event list"

definition emit :: "event \<Rightarrow> 's world \<Rightarrow> 's world" where
  "emit e w = w\<lparr>trace := trace w @ [e]\<rparr>"

definition err_of :: "'e + 'a \<Rightarrow> 'e option" where
  "err_of r = (case r of Inl e \<Rightarrow> Some e | Inr v \<Rightarrow> None)"

definition call_Children ::
  "'s conn \<Rightarrow> path \<Rightarrow> 's world \<Rightarrow> (zk_error + string list \<times> zk_stat) \<times> 's world" where
  "call_Children c p w =
     (case zk_Children c p (remote w) of
        (r, s) \<Rightarrow> (r, w\<lparr>remote := s, trace := trace w @ [Zk (Children p) (err_of r)]\<rparr>))"

definition call_Get ::
  "'s conn \<Rightarrow> path \<Rightarrow> 's world \<Rightarrow> (zk_error + bytes \<times> zk_stat) \<times> 's world" where
  "call_Get c p w =
     (case zk_Get c p (remote w) of
        (r, s) \<Rightarrow> (r, w\<lparr>remote := s, trace := trace w @ [Zk (Get p) (err_of r)]\<rparr>))"

definition call_Create ::
  "'s conn \<Rightarrow> path \<Rightarrow> bytes \<Rightarrow> 's world \<Rightarrow> (zk_error + path) \<times> 's world" where
  "call_Create c p data w =
     (case zk_Create c p data (remote w) of
        (r, s) \<Rightarrow> (r, w\<lparr>remote := s, trace := trace w @ [Zk (Create p data) (err_of r)]\<rparr>))"

definition call_Exists ::
  "'s conn \<Rightarrow> path \<Rightarrow> 's world \<Rightarrow> (zk_error + bool \<times> zk_stat) \<times> 's world" where
  "call_Exists c p w =
     (case zk_Exists c p (remote w) of
        (r, s) \<Rightarrow> (r, w\<lparr>remote := s, trace := trace w @ [Zk (Exists p) (err_of r)]\<rparr>))"

definition call_Set ::
  "'s conn \<Rightarrow> path \<Rightarrow> bytes \<Rightarrow> int \<Rightarrow> 's world \<Rightarrow> (zk_error + zk_stat) \<times> 's world" where
  "call_Set c p data v w =
     (case zk_Set c p data v (remote w) of
        (r, s) \<Rightarrow> (r, w\<lparr>remote := s, trace := trace w @ [Zk (SetData p data v) (err_of r)]\<rparr>))"

definition call_Delete ::
  "'s conn \<Rightarrow> path \<Rightarrow> int \<Rightarrow> 's world \<Rightarrow> zk_error option \<times> 's world" where
  "call_Delete c p v w =
     (case zk_Delete c p v (remote w) of
        (r, s) \<Rightarrow> (r, w\<lparr>remote := s, trace := trace w @ [Zk (Delete p v) r]\<rparr>))"

section \<open>The program (src/configurator.go)\<close>

text \<open>
  Every recursive function of the program takes a bound on the depth of its calls as
  its first argument and gives \<open>None\<close> when the bound is used up; a call that returns
  does so for every bound that is large enough.
\<close>

subsection \<open>doDelete\<close>

fun doDelete :: "nat \<Rightarrow> 's conn \<Rightarrow> path \<Rightarrow> 's world \<Rightarrow> (outcome \<times> 's world) option"
  and doDelete_range ::
    "nat \<Rightarrow> 's conn \<Rightarrow> path \<Rightarrow> string list \<Rightarrow> 's world \<Rightarrow> (outcome \<times> 's world) option"
where
  "doDelete 0 c serverPrefix w = None"
| "doDelete (Suc n) c serverPrefix w =
     (case call_Children c serverPrefix w of
        (Inl err, w1) \<Rightarrow>
          if err = ErrNoNode
          then Some (Returned, emit (LogPrintf ''Path %s not there'' [AStr serverPrefix]) w1)
          else Some (Panicked (PanicZk err), w1)
      | (Inr (children, stat), w1) \<Rightarrow>
          (case doDelete_range n c serverPrefix children w1 of
             None \<Rightarrow> None
           | Some (out, w2) \<Rightarrow>
               if out \<noteq> Returned then Some (out, w2)
               else Some (Returned,
                 snd (call_Delete c serverPrefix (Version stat)
                   (emit (LogPrintf ''Will delete %s'' [AStr serverPrefix]) w2)))))"
| "doDelete_range n c serverPrefix [] w = Some (Returned, w)"
| "doDelete_range n c serverPrefix (child # rest) w =
     (case doDelete n c (path_Join [serverPrefix, child]) w of
        None \<Rightarrow> None
      | Some (out, w1) \<Rightarrow>
          if out \<noteq> Returned then Some (out, w1)
          else doDelete_range n c serverPrefix rest w1)"

subsection \<open>ensureRemotePath\<close>

fun ensureRemotePath ::
  "nat \<Rightarrow> 's conn \<Rightarrow> path \<Rightarrow> 's world \<Rightarrow> (outcome \<times> 's world) option"
where
  "ensureRemotePath 0 c serverPrefix w = None"
| "ensureRemotePath (Suc n) c serverPrefix w =
     (if serverPrefix = ''/'' then Some (Returned, w)
      else case ensureRemotePath n c (path_Dir serverPrefix) w of
        None \<Rightarrow> None
      | Some (out, w1) \<Rightarrow>
          if out \<noteq> Returned then Some (out, w1)
          else (case call_Create c serverPrefix [] w1 of
             (Inl err, w2) \<Rightarrow>
               if err = ErrNodeExists
               then Some (Returned,
                 emit (LogPrintf ''Dir already created: %s'' [AStr serverPrefix]) w2)
               else Some (Panicked (PanicZk err), w2)
           | (Inr created, w2) \<Rightarrow> Some (Returned, w2)))"

subsection \<open>doUpload\<close>

text \<open>
  The remote path of a visited local path:
  \<open>path.Join(*serverPrefix, visitedPath[len(absLocal):])\<close>.
\<close>

definition upload_remote_path :: "path \<Rightarrow> path \<Rightarrow> path \<Rightarrow> path" where
  "upload_remote_path serverPrefix absLocal visitedPath =
     path_Join [serverPrefix, drop (length absLocal) visitedPath]"

text \<open>
  The function value \<open>visitFunc\<close> of \<open>doUpload\<close>, with the variables it captures
  (\<open>c\<close>, \<open>serverPrefix\<close>, \<open>absLocal\<close>) as its first arguments. It returns an error
  (\<open>Inr\<close>, \<open>None\<close> for \<open>nil\<close>) or panics (\<open>Inl\<close>). A \<open>nil\<close> file information can only
  come with an error; the slice \<open>visitedPath[len(absLocal):]\<close> panics when the
  visited path is shorter than the root.
\<close>

definition visitFunc ::
  "'s conn \<Rightarrow> path \<Rightarrow> path \<Rightarrow> path \<Rightarrow> lentry option \<Rightarrow> fs_error option \<Rightarrow> 's world
     \<Rightarrow> (panic + fs_error option) \<times> 's world"
where
  "visitFunc c serverPrefix absLocal visitedPath fInfo err w =
     (if err \<noteq> None then (Inr err, w)
      else case fInfo of
        None \<Rightarrow> (Inl PanicNilDeref, w)
      | Some info \<Rightarrow>
          if \<not> IsRegular info \<and> \<not> IsDir info
          then (Inr err, emit (LogPrintf ''Node is not a regular file: %s'' [AStr visitedPath]) w)
          else if length absLocal > length visitedPath then (Inl PanicSliceBounds, w)
          else
            (let remotePath = upload_remote_path serverPrefix absLocal visitedPath
             in case (if IsDir info then Inr [] else ioutil_ReadFile (lfs w) visitedPath) of
               Inl rerr \<Rightarrow> (Inl (PanicFs rerr), w)
             | Inr fData \<Rightarrow>
                 (case call_Create c remotePath fData w of
                    (Inl cerr, w1) \<Rightarrow>
                      if cerr = ErrNodeExists then
                        (if IsDir info
                         then (Inr err, emit (LogPrintf ''Dir already there: %s'' [AStr remotePath]) w1)
                         else (case call_Exists c remotePath w1 of
                            (Inl xerr, w2) \<Rightarrow> (Inl (PanicZk xerr), w2)
                          | (Inr (found, fStat), w2) \<Rightarrow>
                              if NumChildren fStat > 0
                              then (Inl (PanicStr
                                (''Remote path is a dir when a file is expected: '' @ remotePath)), w2)
                              else (case call_Set c remotePath fData (Version fStat) w2 of
                                 (Inl serr, w3) \<Rightarrow> (Inl (PanicZk serr), w3)
                               | (Inr st, w3) \<Rightarrow>
                                   (Inr err, emit (LogPrintf ''Overwrote %s -> %s''
                                      [AStr visitedPath, AStr remotePath]) w3))))
                      else (Inl (PanicZk cerr), w1)
                  | (Inr created, w1) \<Rightarrow>
                      (Inr err, emit (LogPrintf ''Copied %s -> %s''
                         [AStr visitedPath, AStr remotePath]) w1))))"

text \<open>
  \<open>filepath.Walk\<close> and its helper \<open>walk\<close>, over the file system of the world as it is
  at each step. The visiting function of this program never returns \<open>SkipDir\<close>, so
  that case of the library is absent; a directory that \<open>Lstat\<close> has just found can
  always be listed, so the listing has no error.
\<close>

type_synonym 's WalkFunc =
  "path \<Rightarrow> lentry option \<Rightarrow> fs_error option \<Rightarrow> 's world \<Rightarrow> (panic + fs_error option) \<times> 's world"

fun walk ::
    "nat \<Rightarrow> 's WalkFunc \<Rightarrow> path \<Rightarrow> lentry \<Rightarrow> 's world
       \<Rightarrow> ((panic + fs_error option) \<times> 's world) option"
  and walk_names ::
    "nat \<Rightarrow> 's WalkFunc \<Rightarrow> path \<Rightarrow> string list \<Rightarrow> 's world
       \<Rightarrow> ((panic + fs_error option) \<times> 's world) option"
where
  "walk 0 walkFn p info w = None"
| "walk (Suc n) walkFn p info w =
     (if \<not> IsDir info then Some (walkFn p (Some info) None w)
      else case walkFn p (Some info) None w of
        (Inl pn, w1) \<Rightarrow> Some (Inl pn, w1)
      | (Inr err1, w1) \<Rightarrow>
          if err1 \<noteq> None then Some (Inr err1, w1)
          else walk_names n walkFn p (readDirNames (lfs w) p) w1)"
| "walk_names n walkFn p [] w = Some (Inr None, w)"
| "walk_names n walkFn p (name # rest) w =
     (let filename = path_Join [p, name]
      in case os_Lstat (lfs w) filename of
        Inl lerr \<Rightarrow>
          (case walkFn filename None (Some lerr) w of
             (Inl pn, w1) \<Rightarrow> Some (Inl pn, w1)
           | (Inr err1, w1) \<Rightarrow>
               if err1 \<noteq> None then Some (Inr err1, w1)
               else walk_names n walkFn p rest w1)
      | Inr fileInfo \<Rightarrow>
          (case walk n walkFn filename fileInfo w of
             None \<Rightarrow> None
           | Some (Inl pn, w1) \<Rightarrow> Some (Inl pn, w1)
           | Some (Inr err1, w1) \<Rightarrow>
               if err1 \<noteq> None then Some (Inr err1, w1)
               else walk_names n walkFn p rest w1))"

definition filepath_Walk ::
  "nat \<Rightarrow> path \<Rightarrow> 's WalkFunc \<Rightarrow> 's world \<Rightarrow> ((panic + fs_error option) \<times> 's world) option"
where
  "filepath_Walk n root walkFn w =
     (case os_Lstat (lfs w) root of
        Inl lerr \<Rightarrow> Some (walkFn root None (Some lerr) w)
      | Inr info \<Rightarrow> walk n walkFn root info w)"

text \<open>
  \<open>doUpload\<close>. In the model the working directory is always known, so
  \<open>filepath.Abs\<close> has no error and the first \<open>panic(err)\<close> has no case.
\<close>

definition doUpload ::
  "nat \<Rightarrow> 's conn \<Rightarrow> path \<Rightarrow> path \<Rightarrow> 's world \<Rightarrow> (outcome \<times> 's world) option"
where
  "doUpload n c serverPrefix localPrefix w =
     (let absLocal = filepath_Abs (wd (lfs w)) localPrefix
      in case ensureRemotePath n c serverPrefix w of
        None \<Rightarrow> None
      | Some (out, w1) \<Rightarrow>
          if out \<noteq> Returned then Some (out, w1)
          else (case filepath_Walk n absLocal (visitFunc c serverPrefix absLocal) w1 of
             None \<Rightarrow> None
           | Some (Inl pn, w2) \<Rightarrow> Some (Panicked pn, w2)
           | Some (Inr (Some werr), w2) \<Rightarrow> Some (Panicked (PanicFs werr), w2)
           | Some (Inr None, w2) \<Rightarrow> Some (Returned, w2)))"

subsection \<open>doDownload\<close>

text \<open>
  The end of the file branch of \<open>doDownload\<close> (after the comment \<open>create file\<close>):
  write the content, set both times of the file to \<open>mtime\<close>, and report.
\<close>

definition create_file :: "path \<Rightarrow> bytes \<Rightarrow> gotime \<Rightarrow> 's world \<Rightarrow> outcome \<times> 's world" where
  "create_file localPrefix fData mtime w =
     (case ioutil_WriteFile (lfs w) localPrefix fData of
        (Some werr, fs1) \<Rightarrow> (Panicked (PanicFs werr), w\<lparr>lfs := fs1\<rparr>)
      | (None, fs1) \<Rightarrow>
          (case os_Chtimes fs1 localPrefix mtime mtime of
             (Some cerr, fs2) \<Rightarrow> (Panicked (PanicFs cerr), w\<lparr>lfs := fs2\<rparr>)
           | (None, fs2) \<Rightarrow>
               (Returned, emit (FmtPrintf ''Downloaded file: %s'' [AStr localPrefix])
                  (w\<lparr>lfs := fs2\<rparr>))))"

text \<open>The file branch of \<open>doDownload\<close>, from the comment \<open>check local file\<close> on.\<close>

definition download_file ::
  "path \<Rightarrow> bytes \<Rightarrow> zk_stat \<Rightarrow> 's world \<Rightarrow> outcome \<times> 's world"
where
  "download_file localPrefix fData stat w =
     (let mtime = time_Unix (Mtime stat sdiv 1000) 0;
          w1 = emit (LogPrintf ''Remote file was modified on: %s'' [ATime mtime]) w
      in case os_Stat (lfs w1) localPrefix of
        Inl serr \<Rightarrow>
          if os_IsNotExist serr
          then create_file localPrefix fData mtime
                 (emit (LogPrintf ''Local file does not exist'' []) w1)
          else (Panicked (PanicFs serr), w1)
      | Inr fInfo \<Rightarrow>
          (let w2 = emit (LogPrintf ''Local file was modified on: %s'' [ATime (modTime fInfo)]) w1
           in if mtime = modTime fInfo
              then (Returned, emit (LogPrintf ''Files are the same'' []) w2)
              else if time_After mtime (modTime fInfo)
              then create_file localPrefix fData mtime
                     (emit (LogPrintf ''Remote file is newer, will overwrite'' []) w2)
              else create_file localPrefix fData mtime
                     (emit (FmtPrintf ''Remote file is older than local file: %s''
                        [AStr localPrefix]) w2)))"

text \<open>The start of the directory branch: \<open>os.Mkdir(*localPrefix, nodeMode)\<close>.\<close>

definition make_local_dir :: "path \<Rightarrow> 's world \<Rightarrow> outcome \<times> 's world" where
  "make_local_dir localPrefix w =
     (case os_Mkdir (lfs w) localPrefix of
        (Some merr, fs1) \<Rightarrow>
          if os_IsExist merr
          then (Returned, emit (LogPrintf ''Local dir already present: %s'' [AStr localPrefix])
                  (w\<lparr>lfs := fs1\<rparr>))
          else (Panicked (PanicFs merr), w\<lparr>lfs := fs1\<rparr>)
      | (None, fs1) \<Rightarrow>
          (Returned, emit (LogPrintf ''Created local dir: %s'' [AStr localPrefix])
             (w\<lparr>lfs := fs1\<rparr>)))"

fun doDownload ::
    "nat \<Rightarrow> 's conn \<Rightarrow> path \<Rightarrow> path \<Rightarrow> 's world \<Rightarrow> (outcome \<times> 's world) option"
  and doDownload_range ::
    "nat \<Rightarrow> 's conn \<Rightarrow> path \<Rightarrow> path \<Rightarrow> string list \<Rightarrow> 's world
       \<Rightarrow> (outcome \<times> 's world) option"
where
  "doDownload 0 c serverPrefix localPrefix w = None"
| "doDownload (Suc n) c serverPrefix localPrefix w =
     (case call_Get c serverPrefix w of
        (Inl err, w1) \<Rightarrow>
          if err = ErrNoNode
          then Some (Exited 1, emit (LogFatalf ''Path %s not there'' [AStr serverPrefix]) w1)
          else Some (Panicked (PanicZk err), w1)
      | (Inr (fData, stat), w1) \<Rightarrow>
          if DataLength stat = 0 then
            (case make_local_dir localPrefix w1 of
               (out, w2) \<Rightarrow>
                 if out \<noteq> Returned then Some (out, w2)
                 else if NumChildren stat > 0 then
                   (case call_Children c serverPrefix w2 of
                      (Inl cerr, w3) \<Rightarrow> Some (Panicked (PanicZk cerr), w3)
                    | (Inr (children, cstat), w3) \<Rightarrow>
                        doDownload_range n c serverPrefix localPrefix children w3)
                 else Some (Returned, w2))
          else Some (download_file localPrefix fData stat w1))"
| "doDownload_range n c serverPrefix localPrefix [] w = Some (Returned, w)"
| "doDownload_range n c serverPrefix localPrefix (child # rest) w =
     (case doDownload n c (path_Join [serverPrefix, child]) (path_Join [localPrefix, child]) w of
        None \<Rightarrow> None
      | Some (out, w1) \<Rightarrow>
          if out \<noteq> Returned then Some (out, w1)
          else doDownload_range n c serverPrefix localPrefix rest w1)"

section \<open>The earlier version of the program (src/unnamed/part_000)\<close>

text \<open>
  The functions of the second source file that the properties below speak of: its
  \<open>doDelete\<close>, which reports with \<open>fmt.Printf\<close>, and its \<open>doDownload\<close>, which
  returns when the root is absent and writes every file node without a look at the
  local file.
\<close>

fun doDelete_part000 ::
    "nat \<Rightarrow> 's conn \<Rightarrow> path \<Rightarrow> 's world \<Rightarrow> (outcome \<times> 's world) option"
  and doDelete_part000_range ::
    "nat \<Rightarrow> 's conn \<Rightarrow> path \<Rightarrow> string list \<Rightarrow> 's world \<Rightarrow> (outcome \<times> 's world) option"
where
  "doDelete_part000 0 c serverPrefix w = None"
| "doDelete_part000 (Suc n) c serverPrefix w =
     (case call_Children c serverPrefix w of
        (Inl err, w1) \<Rightarrow>
          if err = ErrNoNode
          then Some (Returned, emit (FmtPrintf ''Path %s not there'' [AStr serverPrefix]) w1)
          else Some (Panicked (PanicZk err), w1)
      | (Inr (children, stat), w1) \<Rightarrow>
          (case doDelete_part000_range n c serverPrefix children w1 of
             None \<Rightarrow> None
           | Some (out, w2) \<Rightarrow>
               if out \<noteq> Returned then Some (out, w2)
               else Some (Returned,
                 snd (call_Delete c serverPrefix (Version stat)
                   (emit (FmtPrintf ''Will delete %s'' [AStr serverPrefix]) w2)))))"
| "doDelete_part000_range n c serverPrefix [] w = Some (Returned, w)"
| "doDelete_part000_range n c serverPrefix (child # rest) w =
     (case doDelete_part000 n c (path_Join [serverPrefix, child]) w of
        None \<Rightarrow> None
      | Some (out, w1) \<Rightarrow>
          if out \<noteq> Returned then Some (out, w1)
          else doDelete_part000_range n c serverPrefix rest w1)"

definition download_file_part000 :: "path \<Rightarrow> bytes \<Rightarrow> 's world \<Rightarrow> outcome \<times> 's world" where
  "download_file_part000 localPrefix fData w =
     (case ioutil_WriteFile (lfs w) localPrefix fData of
        (Some werr, fs1) \<Rightarrow> (Panicked (PanicFs werr), w\<lparr>lfs := fs1\<rparr>)
      | (None, fs1) \<Rightarrow>
          (Returned, emit (FmtPrintf ''Downloaded file: %s'' [AStr localPrefix])
             (w\<lparr>lfs := fs1\<rparr>)))"

definition make_local_dir_part000 :: "path \<Rightarrow> 's world \<Rightarrow> outcome \<times> 's world" where
  "make_local_dir_part000 localPrefix w =
     (case os_Mkdir (lfs w) localPrefix of
        (Some merr, fs1) \<Rightarrow>
          if os_IsExist merr
          then (Returned, emit (FmtPrintf ''Local dir already present: %s'' [AStr localPrefix])
                  (w\<lparr>lfs := fs1\<rparr>))
          else (Panicked (PanicFs merr), w\<lparr>lfs := fs1\<rparr>)
      | (None, fs1) \<Rightarrow>
          (Returned, emit (FmtPrintf ''Created local dir: %s'' [AStr localPrefix])
             (w\<lparr>lfs := fs1\<rparr>)))"

fun doDownload_part000 ::
    "nat \<Rightarrow> 's conn \<Rightarrow> path \<Rightarrow> path \<Rightarrow> 's world \<Rightarrow> (outcome \<times> 's world) option"
  and doDownload_part000_range ::
    "nat \<Rightarrow> 's conn \<Rightarrow> path \<Rightarrow> path \<Rightarrow> string list \<Rightarrow> 's world
       \<Rightarrow> (outcome \<times> 's world) option"
where
  "doDownload_part000 0 c serverPrefix localPrefix w = None"
| "doDownload_part000 (Suc n) c serverPrefix localPrefix w =
     (case call_Get c serverPrefix w of
        (Inl err, w1) \<Rightarrow>
          if err = ErrNoNode
          then Some (Returned, emit (FmtPrintf ''Path %s not there'' [AStr serverPrefix]) w1)
          else Some (Panicked (PanicZk err), w1)
      | (Inr (fData, stat), w1) \<Rightarrow>
          if DataLength stat = 0 then
            (case make_local_dir_part000 localPrefix w1 of
               (out, w2) \<Rightarrow>
                 if out \<noteq> Returned then Some (out, w2)
                 else if NumChildren stat > 0 then
                   (case call_Children c serverPrefix w2 of
                      (Inl cerr, w3) \<Rightarrow> Some (Panicked (PanicZk cerr), w3)
                    | (Inr (children, cstat), w3) \<Rightarrow>
                        doDownload_part000_range n c serverPrefix localPrefix children w3)
                 else Some (Returned, w2))
          else Some (download_file_part000 localPrefix fData w1))"
| "doDownload_part000_range n c serverPrefix localPrefix [] w = Some (Returned, w)"
| "doDownload_part000_range n c serverPrefix localPrefix (child # rest) w =
     (case doDownload_part000 n c (path_Join [serverPrefix, child])
             (path_Join [localPrefix, child]) w of
        None \<Rightarrow> None
      | Some (out, w1) \<Rightarrow>
          if out \<noteq> Returned then Some (out, w1)
          else doDownload_part000_range n c serverPrefix localPrefix rest w1)"

section \<open>A remote service: one client and a finite tree of nodes\<close>

text \<open>
  The service itself is not part of the program. For the properties that speak of
  the nodes of the namespace, it is the usual tree of named nodes, each with data,
  a data version, a modification time in milliseconds, and its children in the order
  in which the service lists them. The node at the top stands for \<open>/\<close>.
\<close>

datatype znode =
  ZNode (zname: string) (zdata: bytes) (zversion: int) (zmtime: int) (zkids: "znode list")

record zserver =
  ztree :: znode
  znow :: int

text \<open>
  The elements of a path that the client accepts: \<open>/\<close>, or a slash followed by names
  separated by single slashes.
\<close>

definition zk_elems :: "path \<Rightarrow> string list option" where
  "zk_elems p =
     (if p = ''/'' then Some []
      else case split_slash p of
        [] \<Rightarrow> None
      | e # es \<Rightarrow> if e = [] \<and> es \<noteq> [] \<and> list_all valid_name es then Some es else None)"

fun zfind :: "string list \<Rightarrow> znode \<Rightarrow> znode option" where
  "zfind [] t = Some t"
| "zfind (e # es) t =
     (case find (\<lambda>k. zname k = e) (zkids t) of None \<Rightarrow> None | Some k \<Rightarrow> zfind es k)"

fun set_kids :: "znode list \<Rightarrow> znode \<Rightarrow> znode" where
  "set_kids ks (ZNode n d v m old) = ZNode n d v m ks"

text \<open>Change, or remove, the first child with a given name.\<close>

fun upd_kid :: "string \<Rightarrow> (znode \<Rightarrow> znode) \<Rightarrow> znode list \<Rightarrow> znode list" where
  "upd_kid e f [] = []"
| "upd_kid e f (k # ks) = (if zname k = e then f k # ks else k # upd_kid e f ks)"

fun del_kid :: "string \<Rightarrow> znode list \<Rightarrow> znode list" where
  "del_kid e [] = []"
| "del_kid e (k # ks) = (if zname k = e then ks else k # del_kid e ks)"

text \<open>Change the node at the end of a path of names.\<close>

primrec zmodify :: "string list \<Rightarrow> (znode \<Rightarrow> znode) \<Rightarrow> znode \<Rightarrow> znode" where
  "zmodify [] f = f"
| "zmodify (e # es) f = (\<lambda>t. set_kids (upd_kid e (zmodify es f) (zkids t)) t)"

definition stat_of :: "znode \<Rightarrow> zk_stat" where
  "stat_of t =
     \<lparr>Version = zversion t, Mtime = zmtime t,
      DataLength = int (length (zdata t)), NumChildren = int (length (zkids t))\<rparr>"

definition tree_Children ::
  "path \<Rightarrow> zserver \<Rightarrow> (zk_error + string list \<times> zk_stat) \<times> zserver" where
  "tree_Children p s =
     (case zk_elems p of
        None \<Rightarrow> (Inl ErrInvalidPath, s)
      | Some es \<Rightarrow>
          (case zfind es (ztree s) of
             None \<Rightarrow> (Inl ErrNoNode, s)
           | Some t \<Rightarrow> (Inr (map zname (zkids t), stat_of t), s)))"

definition tree_Get :: "path \<Rightarrow> zserver \<Rightarrow> (zk_error + bytes \<times> zk_stat) \<times> zserver" where
  "tree_Get p s =
     (case zk_elems p of
        None \<Rightarrow> (Inl ErrInvalidPath, s)
      | Some es \<Rightarrow>
          (case zfind es (ztree s) of
             None \<Rightarrow> (Inl ErrNoNode, s)
           | Some t \<Rightarrow> (Inr (zdata t, stat_of t), s)))"

text \<open>\<open>Exists\<close> turns the absence of the node into \<open>false\<close> with an empty \<open>Stat\<close>.\<close>

definition tree_Exists :: "path \<Rightarrow> zserver \<Rightarrow> (zk_error + bool \<times> zk_stat) \<times> zserver" where
  "tree_Exists p s =
     (case zk_elems p of
        None \<Rightarrow> (Inl ErrInvalidPath, s)
      | Some es \<Rightarrow>
          (case zfind es (ztree s) of
             None \<Rightarrow>
               (Inr (False, \<lparr>Version = 0, Mtime = 0, DataLength = 0, NumChildren = 0\<rparr>), s)
           | Some t \<Rightarrow> (Inr (True, stat_of t), s)))"

definition tree_Create :: "path \<Rightarrow> bytes \<Rightarrow> zserver \<Rightarrow> (zk_error + path) \<times> zserver" where
  "tree_Create p data s =
     (case zk_elems p of
        None \<Rightarrow> (Inl ErrInvalidPath, s)
      | Some es \<Rightarrow>
          if es = [] then (Inl ErrNodeExists, s)
          else (case zfind (butlast es) (ztree s) of
             None \<Rightarrow> (Inl ErrNoNode, s)
           | Some parent \<Rightarrow>
               (case find (\<lambda>k. zname k = last es) (zkids parent) of
                  Some k \<Rightarrow> (Inl ErrNodeExists, s)
                | None \<Rightarrow>
                    (Inr p, s\<lparr>ztree := zmodify (butlast es)
                       (\<lambda>t. set_kids (zkids t @ [ZNode (last es) data 0 (znow s) []]) t)
                       (ztree s)\<rparr>))))"

text \<open>
  \<open>Set\<close> and \<open>Delete\<close> are conditioned on the version: \<open>-1\<close> matches any, another
  value must be the version of the node.
\<close>

definition tree_Set :: "path \<Rightarrow> bytes \<Rightarrow> int \<Rightarrow> zserver \<Rightarrow> (zk_error + zk_stat) \<times> zserver" where
  "tree_Set p data v s =
     (case zk_elems p of
        None \<Rightarrow> (Inl ErrInvalidPath, s)
      | Some es \<Rightarrow>
          (case zfind es (ztree s) of
             None \<Rightarrow> (Inl ErrNoNode, s)
           | Some t \<Rightarrow>
               if v \<noteq> - 1 \<and> v \<noteq> zversion t then (Inl ErrBadVersion, s)
               else
                 (let t' = ZNode (zname t) data (zversion t + 1) (znow s) (zkids t)
                  in (Inr (stat_of t'), s\<lparr>ztree := zmodify es (\<lambda>old. t') (ztree s)\<rparr>))))"

definition tree_Delete :: "path \<Rightarrow> int \<Rightarrow> zserver \<Rightarrow> zk_error option \<times> zserver" where
  "tree_Delete p v s =
     (case zk_elems p of
        None \<Rightarrow> (Some ErrInvalidPath, s)
      | Some es \<Rightarrow>
          (case zfind es (ztree s) of
             None \<Rightarrow> (Some ErrNoNode, s)
           | Some t \<Rightarrow>
               if v \<noteq> - 1 \<and> v \<noteq> zversion t then (Some ErrBadVersion, s)
               else if zkids t \<noteq> [] then (Some ErrNotEmpty, s)
               else if es = [] then (Some ErrBadArguments, s)
               else (None, s\<lparr>ztree := zmodify (butlast es)
                       (\<lambda>par. set_kids (del_kid (last es) (zkids par)) par) (ztree s)\<rparr>)))"

definition tree_conn :: "zserver conn" where
  "tree_conn =
     \<lparr>zk_Children = tree_Children, zk_Get = tree_Get, zk_Create = tree_Create,
      zk_Exists = tree_Exists, zk_Set = tree_Set, zk_Delete = tree_Delete\<rparr>"

text \<open>
  The same service with a second writer: right after every listing of children that
  this client receives, the other writer sets the data of the listed node, which
  raises its version.
\<close>

definition racing_conn :: "zserver conn" where
  "racing_conn =
     tree_conn\<lparr>zk_Children := (\<lambda>p s.
        case tree_Children p s of
          (r, s1) \<Rightarrow> (r, snd (tree_Set p [1] (- 1) s1)))\<rparr>"

section \<open>The paths that the two traversals pair\<close>

text \<open>
  \<open>filepath.Walk\<close> reaches an entry below its root through the names of the
  directories on the way, joining one name at a time (\<open>filename := Join(path, name)\<close>).
\<close>

fun walk_path :: "path \<Rightarrow> string list \<Rightarrow> path" where
  "walk_path root [] = root"
| "walk_path root (name # rest) = walk_path (path_Join [root, name]) rest"

text \<open>
  \<open>doDownload\<close> reaches a node below its root through the names of the children on
  the way, and calls itself with the pair of paths \<open>path.Join(*serverPrefix, child)\<close>
  and \<open>path.Join(*localPrefix, child)\<close>.
\<close>

fun download_paths :: "path \<Rightarrow> path \<Rightarrow> string list \<Rightarrow> path \<times> path" where
  "download_paths serverPrefix localPrefix [] = (serverPrefix, localPrefix)"
| "download_paths serverPrefix localPrefix (child # rest) =
     download_paths (path_Join [serverPrefix, child]) (path_Join [localPrefix, child]) rest"

section \<open>The nodes of a subtree and the order of their deletion\<close>

text \<open>
  A node is well formed when the names of its children are names of path elements,
  no two children have the same name, and the children are well formed.
\<close>

fun wf_node :: "znode \<Rightarrow> bool" where
  "wf_node (ZNode n d v m ks) =
     (distinct (map zname ks) \<and> (\<forall>k\<in>set ks. valid_name (zname k) \<and> wf_node k))"

text \<open>The depth of calls that \<open>doDelete\<close> needs on a node: one more than its height.\<close>

fun zheight :: "znode \<Rightarrow> nat" where
  "zheight (ZNode n d v m ks) = foldr max (map (\<lambda>k. Suc (zheight k)) ks) 0"

text \<open>
  The nodes of the subtree at the path with elements \<open>ds\<close>, each as the list of its
  elements, with every node after all nodes below it.
\<close>

fun postorder :: "string list \<Rightarrow> znode \<Rightarrow> string list list" where
  "postorder ds (ZNode n d v m ks) =
     concat (map (\<lambda>k. postorder (ds @ [zname k]) k) ks) @ [ds]"

text \<open>
  In a list of nodes, every node comes after the nodes below it that are in the
  list: nothing that follows a node has the node as a proper prefix.
\<close>

fun children_first :: "string list list \<Rightarrow> bool" where
  "children_first [] = True"
| "children_first (x # xs) = ((\<forall>y\<in>set xs. \<not> strict_prefix x y) \<and> children_first xs)"

text \<open>The paths of the \<open>Delete\<close> calls of a trace, in order, and the answers to them.\<close>

definition delete_order :: "event list \<Rightarrow> path list" where
  "delete_order tr =
     concat (map (\<lambda>e. case e of Zk (Delete p v) r \<Rightarrow> [p] | _ \<Rightarrow> []) tr)"

definition delete_answers :: "event list \<Rightarrow> zk_error option list" where
  "delete_answers tr =
     concat (map (\<lambda>e. case e of Zk (Delete p v) r \<Rightarrow> [r] | _ \<Rightarrow> []) tr)"

text \<open>
  What \<open>doDelete\<close> adds to the trace on the subtree at \<open>ds\<close>: the listing of the
  node, the events of its children in the order listed, the message and the
  \<open>Delete\<close> of the node with the version read by the listing. The service refuses to
  delete the root.
\<close>

fun delete_events :: "string list \<Rightarrow> znode \<Rightarrow> event list" where
  "delete_events ds (ZNode n d v m ks) =
     Zk (Children (abs_path ds)) None
       # concat (map (\<lambda>k. delete_events (ds @ [zname k]) k) ks)
       @ [LogPrintf ''Will delete %s'' [AStr (abs_path ds)],
          Zk (Delete (abs_path ds) v) (if ds = [] then Some ErrBadArguments else None)]"

text \<open>The tree after the subtree at \<open>ds\<close> has been deleted (the root itself stays).\<close>

definition after_delete :: "string list \<Rightarrow> znode \<Rightarrow> znode" where
  "after_delete ds t =
     (if ds = [] then set_kids [] t
      else zmodify (butlast ds) (\<lambda>par. set_kids (del_kid (last ds) (zkids par)) par)
             (zmodify ds (set_kids []) t))"

section \<open>The calls of a run\<close>

text \<open>The calls to the service in a trace, each with the error it answered.\<close>

definition zk_calls :: "event list \<Rightarrow> (zk_call \<times> zk_error option) list" where
  "zk_calls tr = concat (map (\<lambda>e. case e of Zk k r \<Rightarrow> [(k, r)] | _ \<Rightarrow> []) tr)"

text \<open>
  Two worlds agree on everything but the messages: the same namespace, the same local
  file system, the same calls so far. Two results agree when both are absent or both
  have the same outcome in worlds that agree.
\<close>

definition sim :: "'s world \<Rightarrow> 's world \<Rightarrow> bool" where
  "sim w v = (remote w = remote v \<and> lfs w = lfs v \<and> zk_calls (trace w) = zk_calls (trace v))"

definition sim_res :: "(outcome \<times> 's world) option \<Rightarrow> (outcome \<times> 's world) option \<Rightarrow> bool" where
  "sim_res a b = (case (a, b) of
      (None, None) \<Rightarrow> True
    | (Some (o1, w1), Some (o2, w2)) \<Rightarrow> o1 = o2 \<and> sim w1 w2
    | _ \<Rightarrow> False)"

section \<open>Sample worlds\<close>

text \<open>
  A small namespace (\<open>/r\<close> with the file node \<open>/r/a\<close>, modified at 1500 ms, and the
  directory node \<open>/r/b\<close> holding \<open>/r/b/c\<close>) and a local file system with the root
  directory and the given further entries, on which the program is run below.
\<close>

definition sample_tree :: znode where
  "sample_tree =
     ZNode [] [] 0 0
       [ZNode ''r'' [] 0 5
          [ZNode ''a'' [1, 2] 3 1500 [],
           ZNode ''b'' [] 0 7 [ZNode ''c'' [9] 1 8 []]]]"

definition sample_fs :: "(path \<times> lentry) list \<Rightarrow> localfs" where
  "sample_fs files =
     \<lparr>entries = (''/'', \<lparr>kind = Directory, modTime = \<lparr>t_sec = 0, t_nsec = 0\<rparr>\<rparr>) # files,
      wd = ''/'', clock = \<lparr>t_sec = 99, t_nsec = 5\<rparr>\<rparr>"

definition sample_world :: "(path \<times> lentry) list \<Rightarrow> zserver world" where
  "sample_world files =
     \<lparr>remote = \<lparr>ztree = sample_tree, znow = 2000\<rparr>, lfs = sample_fs files, trace = []\<rparr>"

definition local_file :: "bytes \<Rightarrow> int \<Rightarrow> lentry" where
  "local_file data sec = \<lparr>kind = RegularFile data, modTime = \<lparr>t_sec = sec, t_nsec = 0\<rparr>\<rparr>"

section \<open>Properties\<close>

subsection \<open>Unfolding the models\<close>

lemmas path_defs = path_Clean_def clean_elems_def clean_step_def path_Join_def path_Dir_def dir_part_def filepath_Abs_def
lemmas tree_defs = tree_conn_def tree_Children_def tree_Get_def tree_Exists_def tree_Create_def tree_Set_def tree_Delete_def zk_elems_def stat_of_def valid_name_def
lemmas fs_defs = lookup_entry_def store_entry_def os_Stat_def os_Lstat_def parent_check_def os_Mkdir_def ioutil_WriteFile_def os_Chtimes_def ioutil_ReadFile_def IsDir_def IsRegular_def os_IsExist_def os_IsNotExist_def
lemmas call_defs = call_Children_def call_Get_def call_Create_def call_Exists_def call_Set_def call_Delete_def emit_def err_of_def
lemmas sample_defs = sample_tree_def sample_fs_def sample_world_def local_file_def

subsection \<open>Effects of the file branch of doDownload\<close>

lemma lookup_store_entry:
  "p \<noteq> [] \<Longrightarrow> lookup_entry (store_entry p e fs) p = Some e"
  by (simp add: lookup_entry_def store_entry_def update_conv')

lemma store_entry_fields [simp]:
  "wd (store_entry p e fs) = wd fs" "clock (store_entry p e fs) = clock fs"
  by (simp_all add: store_entry_def)

lemma lookup_entry_nonempty: "lookup_entry fs p = Some e \<Longrightarrow> p \<noteq> []"
  by (auto simp: lookup_entry_def split: if_splits)

lemma create_file_absent:
  assumes "p \<noteq> []" "lookup_entry (lfs w) p = None" "parent_check (lfs w) p = None"
  shows "\<exists>w'. create_file p data mtime w = (Returned, w')
           \<and> lookup_entry (lfs w') p = Some \<lparr>kind = RegularFile data, modTime = mtime\<rparr>"
  using assms
  by (simp add: create_file_def ioutil_WriteFile_def os_Chtimes_def lookup_store_entry emit_def)

lemma create_file_regular:
  assumes "lookup_entry (lfs w) p = Some e" "kind e = RegularFile old"
  shows "\<exists>w'. create_file p data mtime w = (Returned, w')
           \<and> lookup_entry (lfs w') p = Some \<lparr>kind = RegularFile data, modTime = mtime\<rparr>"
  using assms lookup_entry_nonempty[OF assms(1)]
  by (simp add: create_file_def ioutil_WriteFile_def os_Chtimes_def lookup_store_entry emit_def)

lemma emit_fields [simp]:
  "lfs (emit e w) = lfs w" "remote (emit e w) = remote w" "trace (emit e w) = trace w @ [e]"
  by (simp_all add: emit_def)

lemma download_file_absent:
  assumes "p \<noteq> []" "lookup_entry (lfs w) p = None" "parent_check (lfs w) p = None"
  shows "\<exists>w'. download_file p data stat w = (Returned, w')
           \<and> lookup_entry (lfs w') p =
               Some \<lparr>kind = RegularFile data, modTime = time_Unix (Mtime stat sdiv 1000) 0\<rparr>"
proof -
  let ?w1 = "emit (LogPrintf ''Local file does not exist'' [])
       (emit (LogPrintf ''Remote file was modified on: %s'' [ATime (time_Unix (Mtime stat sdiv 1000) 0)]) w)"
  have "\<exists>w'. create_file p data (time_Unix (Mtime stat sdiv 1000) 0) ?w1 = (Returned, w')
           \<and> lookup_entry (lfs w') p = Some \<lparr>kind = RegularFile data, modTime = time_Unix (Mtime stat sdiv 1000) 0\<rparr>"
    by (rule create_file_absent) (use assms in simp_all)
  then show ?thesis
    using assms by (simp add: download_file_def Let_def os_Stat_def os_IsNotExist_def)
qed

lemma download_file_same:
  assumes "lookup_entry (lfs w) p = Some e" "modTime e = time_Unix (Mtime stat sdiv 1000) 0"
  shows "\<exists>w'. download_file p data stat w = (Returned, w') \<and> lfs w' = lfs w
           \<and> last (trace w') = LogPrintf ''Files are the same'' []"
  using assms by (simp add: download_file_def Let_def os_Stat_def)

lemma time_After_irrefl: "\<not> time_After t t"
  by (simp add: time_After_def)

lemma download_file_newer:
  assumes "lookup_entry (lfs w) p = Some e" "kind e = RegularFile old"
    "time_After (time_Unix (Mtime stat sdiv 1000) 0) (modTime e)"
  shows "\<exists>w'. download_file p data stat w = (Returned, w')
           \<and> lookup_entry (lfs w') p =
               Some \<lparr>kind = RegularFile data, modTime = time_Unix (Mtime stat sdiv 1000) 0\<rparr>"
proof -
  let ?m = "time_Unix (Mtime stat sdiv 1000) 0"
  let ?w1 = "emit (LogPrintf ''Remote file is newer, will overwrite'' [])
       (emit (LogPrintf ''Local file was modified on: %s'' [ATime (modTime e)])
       (emit (LogPrintf ''Remote file was modified on: %s'' [ATime ?m]) w))"
  have ne: "?m \<noteq> modTime e" using assms(3) time_After_irrefl by metis
  have "\<exists>w'. create_file p data ?m ?w1 = (Returned, w')
           \<and> lookup_entry (lfs w') p = Some \<lparr>kind = RegularFile data, modTime = ?m\<rparr>"
    by (rule create_file_regular[where e = e and old = old]) (use assms in simp_all)
  then show ?thesis
    using assms ne by (simp add: download_file_def Let_def os_Stat_def)
qed

lemma doDownload_file_node:
  assumes "zk_Get c sp (remote w) = (Inr (data, stat), s)" "DataLength stat \<noteq> 0"
  shows "doDownload (Suc n) c sp lp w =
           Some (download_file lp data stat
             (w\<lparr>remote := s, trace := trace w @ [Zk (Get sp) None]\<rparr>))"
  using assms by (simp add: call_Get_def err_of_def)

subsection \<open>Download of a file node that has no local file\<close>

text \<open>
  Claim C6, as the program has it. When the remote node has data and nothing exists
  at the local path (whose directory exists), \<open>doDownload\<close> writes the data and sets
  the modification time of the new file to the remote timestamp cut down to whole
  seconds, \<open>time.Unix(stat.Mtime/1000, 0)\<close>; a second download of the unchanged node
  then finds the two times equal, reports that the files are the same and leaves the
  local file system as it is.
\<close>

theorem download_absent_sets_whole_seconds:
  assumes "zk_Get c serverPrefix (remote w) = (Inr (fData, stat), s)"
    and "zk_Get c serverPrefix s = (Inr (fData, stat), s)"
    and "DataLength stat \<noteq> 0"
    and "localPrefix \<noteq> []"
    and "lookup_entry (lfs w) localPrefix = None"
    and "parent_check (lfs w) localPrefix = None"
  shows "\<exists>w1 w2.
           doDownload (Suc n) c serverPrefix localPrefix w = Some (Returned, w1)
         \<and> lookup_entry (lfs w1) localPrefix =
             Some \<lparr>kind = RegularFile fData, modTime = time_Unix (Mtime stat sdiv 1000) 0\<rparr>
         \<and> doDownload (Suc n) c serverPrefix localPrefix w1 = Some (Returned, w2)
         \<and> lfs w2 = lfs w1
         \<and> last (trace w2) = LogPrintf ''Files are the same'' []"
proof -
  let ?w0 = "w\<lparr>remote := s, trace := trace w @ [Zk (Get serverPrefix) None]\<rparr>"
  have run1: "doDownload (Suc n) c serverPrefix localPrefix w =
      Some (download_file localPrefix fData stat ?w0)"
    using assms(1,3) by (rule doDownload_file_node)
  obtain w1 where w1: "download_file localPrefix fData stat ?w0 = (Returned, w1)"
      "lookup_entry (lfs w1) localPrefix =
         Some \<lparr>kind = RegularFile fData, modTime = time_Unix (Mtime stat sdiv 1000) 0\<rparr>"
    using download_file_absent[of localPrefix ?w0 fData stat] assms(4,5,6) by auto
  have rem: "remote w1 = s"
    using w1(1) assms(4,5,6)
    by (auto simp: download_file_def Let_def os_Stat_def os_IsNotExist_def create_file_def
          ioutil_WriteFile_def os_Chtimes_def lookup_store_entry emit_def
          split: option.splits prod.splits if_splits)
  let ?w1' = "w1\<lparr>remote := s, trace := trace w1 @ [Zk (Get serverPrefix) None]\<rparr>"
  have run2: "doDownload (Suc n) c serverPrefix localPrefix w1 =
      Some (download_file localPrefix fData stat ?w1')"
    using assms(2,3) rem by (intro doDownload_file_node) simp_all
  obtain w2 where w2: "download_file localPrefix fData stat ?w1' = (Returned, w2)"
      "lfs w2 = lfs ?w1'" "last (trace w2) = LogPrintf ''Files are the same'' []"
    using download_file_same[of ?w1' localPrefix _ stat fData] w1(2) by auto
  show ?thesis
    using run1 run2 w1 w2 by simp
qed

theorem download_absent_sets_whole_seconds_witness:
  "zk_Get tree_conn ''/r/a'' (remote (sample_world [])) =
     (Inr ([1, 2], \<lparr>Version = 3, Mtime = 1500, DataLength = 2, NumChildren = 0\<rparr>),
      remote (sample_world []))
   \<and> lookup_entry (lfs (sample_world [])) ''/a'' = None
   \<and> parent_check (lfs (sample_world [])) ''/a'' = None
   \<and> (\<exists>w1. doDownload (Suc 0) tree_conn ''/r/a'' ''/a'' (sample_world []) = Some (Returned, w1)
         \<and> lookup_entry (lfs w1) ''/a'' =
             Some \<lparr>kind = RegularFile [1, 2], modTime = \<lparr>t_sec = 1, t_nsec = 0\<rparr>\<rparr>)"
proof -
  let ?st = "\<lparr>Version = 3, Mtime = 1500, DataLength = 2, NumChildren = 0\<rparr>"
  have g: "zk_Get tree_conn ''/r/a'' (remote (sample_world [])) =
     (Inr ([1, 2], ?st), remote (sample_world []))"
    by (simp add: tree_defs sample_defs)
  have l: "lookup_entry (lfs (sample_world [])) ''/a'' = None"
    by (simp add: fs_defs path_defs sample_defs)
  have p: "parent_check (lfs (sample_world [])) ''/a'' = None"
    by (simp add: fs_defs path_defs sample_defs)
  have d: "DataLength ?st \<noteq> 0" by simp
  have ne: "''/a'' \<noteq> []" by simp
  have t: "time_Unix (Mtime ?st sdiv 1000) 0 = \<lparr>t_sec = 1, t_nsec = 0\<rparr>"
    by (simp add: time_Unix_def signed_divide_int_def)
  from download_absent_sets_whole_seconds [OF g g d ne l p, of 0]
  show ?thesis using g l p unfolding t by blast
qed

text \<open>
  The claim as first stated asks for the remote timestamp in milliseconds exactly.
  The node \<open>/r/a\<close> was modified at 1500 ms; the file written for it carries the time
  1 s and 0 ns, while the instant 1500 ms is 1 s and 500000000 ns.
\<close>

theorem download_absent_exact_millis_counterexample:
  "map_option (\<lambda>(out, w1). (out, map_option modTime (lookup_entry (lfs w1) ''/a'')))
     (doDownload 1 tree_conn ''/r/a'' ''/a'' (sample_world []))
     = Some (Returned, Some \<lparr>t_sec = 1, t_nsec = 0\<rparr>)
   \<and> map_option (\<lambda>(data, st). instant_of_millis (Mtime st))
       (case tree_Get ''/r/a'' (remote (sample_world [])) of (Inr r, s) \<Rightarrow> Some r | (Inl e, s) \<Rightarrow> None)
     = Some \<lparr>t_sec = 1, t_nsec = 500000000\<rparr>"
  by code_simp

subsection \<open>Download of a root that does not exist\<close>

text \<open>
  Claim C2, as the program has it. When the service answers that the node at the
  remote root does not exist, \<open>doDownload\<close> of src/configurator.go reports it with
  \<open>log.Fatalf\<close>, which ends the process with status 1: it neither returns to its
  caller nor panics, and the local file system is untouched. The \<open>doDownload\<close> of
  the earlier version prints the same message and returns.
\<close>

theorem doDownload_missing_root:
  assumes "zk_Get c serverPrefix (remote w) = (Inl ErrNoNode, s)"
  shows "doDownload (Suc n) c serverPrefix localPrefix w =
           Some (Exited 1, w\<lparr>remote := s, trace := trace w @
             [Zk (Get serverPrefix) (Some ErrNoNode),
              LogFatalf ''Path %s not there'' [AStr serverPrefix]]\<rparr>)
       \<and> doDownload_part000 (Suc n) c serverPrefix localPrefix w =
           Some (Returned, w\<lparr>remote := s, trace := trace w @
             [Zk (Get serverPrefix) (Some ErrNoNode),
              FmtPrintf ''Path %s not there'' [AStr serverPrefix]]\<rparr>)"
  using assms by (simp add: call_defs)

theorem doDownload_missing_root_witness:
  "zk_Get tree_conn ''/zz'' (remote (sample_world [])) = (Inl ErrNoNode, remote (sample_world []))
   \<and> map_option fst (doDownload (Suc 0) tree_conn ''/zz'' ''/out'' (sample_world [])) = Some (Exited 1)
   \<and> map_option fst (doDownload_part000 (Suc 0) tree_conn ''/zz'' ''/out'' (sample_world [])) = Some Returned"
proof -
  have h: "zk_Get tree_conn ''/zz'' (remote (sample_world [])) = (Inl ErrNoNode, remote (sample_world []))"
    by (simp add: tree_defs sample_defs)
  show ?thesis
    using h doDownload_missing_root [OF h, of 0 "''/out''"] by simp
qed

text \<open>
  The claim as first stated has the download return to its caller. On the sample
  namespace, which has no node \<open>/zz\<close>, the call ends the process instead.
\<close>

theorem doDownload_missing_root_counterexample:
  "fst (tree_Get ''/zz'' (remote (sample_world []))) = Inl ErrNoNode
   \<and> map_option fst (doDownload 1 tree_conn ''/zz'' ''/out'' (sample_world [])) \<noteq> Some Returned
   \<and> map_option fst (doDownload 1 tree_conn ''/zz'' ''/out'' (sample_world [])) = Some (Exited 1)"
  by code_simp

subsection \<open>Download of a file node over an existing local file\<close>

text \<open>
  Claim C1, as the program has it. When the remote node has data and a regular file
  exists at the local path, \<open>doDownload\<close> compares the local modification time with
  the remote timestamp cut down to whole seconds, \<open>time.Unix(stat.Mtime/1000, 0)\<close>:
  when the two are equal it reports that the files are the same and writes nothing;
  when the truncated remote time is strictly later it overwrites the local file with
  the remote data and sets its modification time to the truncated remote time.
  (Nothing is said here of a truncated remote time that is strictly earlier.)
\<close>

theorem download_existing_compares_whole_seconds:
  assumes "zk_Get c serverPrefix (remote w) = (Inr (fData, stat), s)"
    and "DataLength stat \<noteq> 0"
    and "lookup_entry (lfs w) localPrefix = Some fInfo"
    and "kind fInfo = RegularFile old"
  shows "(time_Unix (Mtime stat sdiv 1000) 0 = modTime fInfo \<longrightarrow>
           (\<exists>w1. doDownload (Suc n) c serverPrefix localPrefix w = Some (Returned, w1)
              \<and> lfs w1 = lfs w
              \<and> last (trace w1) = LogPrintf ''Files are the same'' []))
       \<and> (time_After (time_Unix (Mtime stat sdiv 1000) 0) (modTime fInfo) \<longrightarrow>
           (\<exists>w1. doDownload (Suc n) c serverPrefix localPrefix w = Some (Returned, w1)
              \<and> lookup_entry (lfs w1) localPrefix =
                  Some \<lparr>kind = RegularFile fData,
                        modTime = time_Unix (Mtime stat sdiv 1000) 0\<rparr>))"
proof -
  let ?w0 = "w\<lparr>remote := s, trace := trace w @ [Zk (Get serverPrefix) None]\<rparr>"
  have run: "doDownload (Suc n) c serverPrefix localPrefix w =
      Some (download_file localPrefix fData stat ?w0)"
    using assms(1,2) by (rule doDownload_file_node)
  have look: "lookup_entry (lfs ?w0) localPrefix = Some fInfo"
    using assms(3) by simp
  show ?thesis
  proof (intro conjI impI)
    assume "time_Unix (Mtime stat sdiv 1000) 0 = modTime fInfo"
    then show "\<exists>w1. doDownload (Suc n) c serverPrefix localPrefix w = Some (Returned, w1)
              \<and> lfs w1 = lfs w \<and> last (trace w1) = LogPrintf ''Files are the same'' []"
      using download_file_same[OF look, of stat fData] run by auto
  next
    assume "time_After (time_Unix (Mtime stat sdiv 1000) 0) (modTime fInfo)"
    then show "\<exists>w1. doDownload (Suc n) c serverPrefix localPrefix w = Some (Returned, w1)
              \<and> lookup_entry (lfs w1) localPrefix =
                  Some \<lparr>kind = RegularFile fData,
                        modTime = time_Unix (Mtime stat sdiv 1000) 0\<rparr>"
      using download_file_newer[OF look assms(4), of stat fData] run by auto
  qed
qed

theorem download_existing_compares_whole_seconds_witness:
  "(\<exists>w1. doDownload (Suc 0) tree_conn ''/r/a'' ''/a''
            (sample_world [(''/a'', local_file [7] 1)]) = Some (Returned, w1)
        \<and> lfs w1 = lfs (sample_world [(''/a'', local_file [7] 1)]))
   \<and> (\<exists>w1. doDownload (Suc 0) tree_conn ''/r/a'' ''/a''
            (sample_world [(''/a'', local_file [7] 0)]) = Some (Returned, w1)
        \<and> lookup_entry (lfs w1) ''/a'' =
            Some \<lparr>kind = RegularFile [1, 2], modTime = \<lparr>t_sec = 1, t_nsec = 0\<rparr>\<rparr>)"
proof -
  let ?st = "\<lparr>Version = 3, Mtime = 1500, DataLength = 2, NumChildren = 0\<rparr>"
  have g: "zk_Get tree_conn ''/r/a'' (remote (sample_world fs)) =
     (Inr ([1, 2], ?st), remote (sample_world fs))" for fs
    by (simp add: tree_defs sample_defs)
  have d: "DataLength ?st \<noteq> 0" by simp
  have l: "lookup_entry (lfs (sample_world [(''/a'', local_file [7] k)])) ''/a'' =
      Some (local_file [7] k)" for k
    by (simp add: fs_defs path_defs sample_defs)
  have k: "kind (local_file [7] k) = RegularFile [7]" for k
    by (simp add: local_file_def)
  have t: "time_Unix (Mtime ?st sdiv 1000) 0 = \<lparr>t_sec = 1, t_nsec = 0\<rparr>"
    by (simp add: time_Unix_def signed_divide_int_def)
  have same: "time_Unix (Mtime ?st sdiv 1000) 0 = modTime (local_file [7] 1)"
    by (simp add: time_Unix_def signed_divide_int_def local_file_def)
  have newer: "time_After (time_Unix (Mtime ?st sdiv 1000) 0) (modTime (local_file [7] 0))"
    by (simp add: time_Unix_def signed_divide_int_def local_file_def time_After_def)
  from download_existing_compares_whole_seconds [OF g d l k, of 1 0] same
  have a: "\<exists>w1. doDownload (Suc 0) tree_conn ''/r/a'' ''/a''
            (sample_world [(''/a'', local_file [7] 1)]) = Some (Returned, w1)
        \<and> lfs w1 = lfs (sample_world [(''/a'', local_file [7] 1)])"
    by blast
  from download_existing_compares_whole_seconds [OF g d l k, of 0 0] newer
  have b: "\<exists>w1. doDownload (Suc 0) tree_conn ''/r/a'' ''/a''
            (sample_world [(''/a'', local_file [7] 0)]) = Some (Returned, w1)
        \<and> lookup_entry (lfs w1) ''/a'' =
            Some \<lparr>kind = RegularFile [1, 2], modTime = time_Unix (Mtime ?st sdiv 1000) 0\<rparr>"
    by blast
  show ?thesis using a b unfolding t by blast
qed

text \<open>
  The claim as first stated compares the remote timestamp itself. The node \<open>/r/a\<close>
  was modified at 1500 ms, strictly later than a local file modified at 1 s, and yet
  the download leaves that file as it is: the two are equal once the remote time is
  cut down to 1 s.
\<close>

theorem download_strictly_newer_millis_counterexample:
  "map_option (\<lambda>(data, st). Mtime st)
       (case tree_Get ''/r/a'' (remote (sample_world [(''/a'', local_file [7] 1)])) of
          (Inr r, s) \<Rightarrow> Some r | (Inl e, s) \<Rightarrow> None) = Some 1500
   \<and> time_After (instant_of_millis 1500) (modTime (local_file [7] 1))
   \<and> map_option (\<lambda>(out, w1). (out, lookup_entry (lfs w1) ''/a''))
       (doDownload 1 tree_conn ''/r/a'' ''/a'' (sample_world [(''/a'', local_file [7] 1)]))
     = Some (Returned, Some (local_file [7] 1))"
  by code_simp

text \<open>
  When the truncated remote time is strictly earlier than the local one, the program
  prints that the remote file is older and then runs on into the same write as in
  the other cases: the branch has no \<open>return\<close>. Here a local file modified at 5 s
  is replaced by the remote data of 1500 ms.
\<close>

lemma download_older_remote_overwrites:
  "time_After (modTime (local_file [7] 5)) (instant_of_millis 1500)
   \<and> map_option (\<lambda>(out, w1). (out, lookup_entry (lfs w1) ''/a'', last (trace w1)))
       (doDownload 1 tree_conn ''/r/a'' ''/a'' (sample_world [(''/a'', local_file [7] 5)]))
     = Some (Returned, Some (local_file [1, 2] 1), FmtPrintf ''Downloaded file: %s'' [AStr ''/a''])"
  by code_simp

subsection \<open>Upload of a file onto a node that has children\<close>

lemma zfind_parent:
  "zfind es t = Some n \<Longrightarrow> es \<noteq> [] \<Longrightarrow>
     \<exists>par k. zfind (butlast es) t = Some par \<and> find (\<lambda>k. zname k = last es) (zkids par) = Some k"
proof (induction es arbitrary: t)
  case Nil
  then show ?case by simp
next
  case (Cons e es)
  show ?case
  proof (cases "es = []")
    case True
    with Cons.prems show ?thesis by (auto split: option.splits)
  next
    case False
    with Cons.prems obtain k where k: "find (\<lambda>k. zname k = e) (zkids t) = Some k" "zfind es k = Some n"
      by (auto split: option.splits)
    from Cons.IH[OF k(2) False] k(1) False show ?thesis by simp
  qed
qed

lemma tree_Create_existing:
  assumes "zk_elems p = Some es" "zfind es (ztree s) = Some n"
  shows "tree_Create p data s = (Inl ErrNodeExists, s)"
proof (cases "es = []")
  case True
  with assms show ?thesis by (simp add: tree_Create_def)
next
  case False
  from zfind_parent[OF assms(2) False] assms(1) False show ?thesis
    by (auto simp: tree_Create_def)
qed

text \<open>
  Claim C4. When \<open>visitFunc\<close> visits a local regular file and the remote path it maps
  to is a node with at least one child, it panics with the message that the remote
  path is a directory; the only calls it has made are the \<open>Create\<close> that the service
  refused because the node exists and the \<open>Exists\<close> that read the number of
  children, no \<open>Set\<close> is issued, and the namespace is as it was. (\<open>filepath.Walk\<close>
  and \<open>doUpload\<close> pass a panic on as it is.)
\<close>

theorem upload_file_onto_parent_node_panics:
  assumes "zk_elems (upload_remote_path serverPrefix absLocal visitedPath) = Some es"
    and "zfind es (ztree (remote w)) = Some node"
    and "zkids node \<noteq> []"
    and "lookup_entry (lfs w) visitedPath = Some fInfo"
    and "kind fInfo = RegularFile fData"
    and "length absLocal \<le> length visitedPath"
  shows "visitFunc tree_conn serverPrefix absLocal visitedPath (Some fInfo) None w =
           (Inl (PanicStr (''Remote path is a dir when a file is expected: ''
                   @ upload_remote_path serverPrefix absLocal visitedPath)),
            w\<lparr>trace := trace w @
               [Zk (Create (upload_remote_path serverPrefix absLocal visitedPath) fData)
                  (Some ErrNodeExists),
                Zk (Exists (upload_remote_path serverPrefix absLocal visitedPath)) None]\<rparr>)"
proof -
  let ?rp = "upload_remote_path serverPrefix absLocal visitedPath"
  have cr: "tree_Create ?rp fData (remote w) = (Inl ErrNodeExists, remote w)"
    using assms(1,2) by (rule tree_Create_existing)
  have ex: "tree_Exists ?rp (remote w) = (Inr (True, stat_of node), remote w)"
    using assms(1,2) by (simp add: tree_Exists_def)
  have nc: "NumChildren (stat_of node) > 0"
    using assms(3) by (simp add: stat_of_def)
  have rd: "ioutil_ReadFile (lfs w) visitedPath = Inr fData"
    using assms(4,5) by (simp add: ioutil_ReadFile_def)
  have kinds: "IsRegular fInfo" "\<not> IsDir fInfo"
    using assms(5) by (simp_all add: IsRegular_def IsDir_def)
  show ?thesis
    using cr ex nc rd kinds assms(6)
    by (simp add: visitFunc_def Let_def call_Create_def call_Exists_def err_of_def tree_conn_def)
qed

theorem upload_file_onto_parent_node_panics_witness:
  "visitFunc tree_conn ''/r'' ''/up'' ''/up/b'' (Some (local_file [4] 3)) None
     (sample_world [(''/up'', \<lparr>kind = Directory, modTime = \<lparr>t_sec = 0, t_nsec = 0\<rparr>\<rparr>),
                    (''/up/b'', local_file [4] 3)]) =
   (Inl (PanicStr ''Remote path is a dir when a file is expected: /r/b''),
    (sample_world [(''/up'', \<lparr>kind = Directory, modTime = \<lparr>t_sec = 0, t_nsec = 0\<rparr>\<rparr>),
                    (''/up/b'', local_file [4] 3)])
      \<lparr>trace := [Zk (Create ''/r/b'' [4]) (Some ErrNodeExists), Zk (Exists ''/r/b'') None]\<rparr>)"
proof -
  let ?w = "sample_world [(''/up'', \<lparr>kind = Directory, modTime = \<lparr>t_sec = 0, t_nsec = 0\<rparr>\<rparr>),
                    (''/up/b'', local_file [4] 3)]"
  have rp: "upload_remote_path ''/r'' ''/up'' ''/up/b'' = ''/r/b''"
    by (simp add: upload_remote_path_def path_defs)
  have e: "zk_elems (upload_remote_path ''/r'' ''/up'' ''/up/b'') = Some [''r'', ''b'']"
    unfolding rp by (simp add: zk_elems_def valid_name_def)
  have f: "zfind [''r'', ''b''] (ztree (remote ?w)) = Some (ZNode ''b'' [] 0 7 [ZNode ''c'' [9] 1 8 []])"
    by (simp add: sample_defs)
  have k: "zkids (ZNode ''b'' [] 0 7 [ZNode ''c'' [9] 1 8 []]) \<noteq> []" by simp
  have l: "lookup_entry (lfs ?w) ''/up/b'' = Some (local_file [4] 3)"
    by (simp add: fs_defs path_defs sample_defs)
  have r: "kind (local_file [4] 3) = RegularFile [4]" by (simp add: local_file_def)
  have n: "length ''/up'' \<le> length ''/up/b''" by simp
  have tr: "trace ?w = []" by (simp add: sample_defs)
  from upload_file_onto_parent_node_panics [OF e f k l r n]
  show ?thesis unfolding rp tr by simp
qed

subsection \<open>Version conflicts\<close>

text \<open>
  A version conflict (or any other error) of the \<open>Set\<close> that overwrites a node during
  upload makes \<open>visitFunc\<close> panic with that error.
\<close>

lemma visitFunc_Set_error_panics:
  assumes "lookup_entry (lfs w) visitedPath = Some fInfo"
    and "kind fInfo = RegularFile fData"
    and "length absLocal \<le> length visitedPath"
    and "zk_Create c (upload_remote_path serverPrefix absLocal visitedPath) fData (remote w)
           = (Inl ErrNodeExists, s1)"
    and "zk_Exists c (upload_remote_path serverPrefix absLocal visitedPath) s1
           = (Inr (found, fStat), s2)"
    and "\<not> NumChildren fStat > 0"
    and "zk_Set c (upload_remote_path serverPrefix absLocal visitedPath) fData
           (Version fStat) s2 = (Inl err, s3)"
  shows "fst (visitFunc c serverPrefix absLocal visitedPath (Some fInfo) None w) = Inl (PanicZk err)"
proof -
  have rd: "ioutil_ReadFile (lfs w) visitedPath = Inr fData"
    using assms(1,2) by (simp add: ioutil_ReadFile_def)
  have kinds: "IsRegular fInfo" "\<not> IsDir fInfo"
    using assms(2) by (simp_all add: IsRegular_def IsDir_def)
  show ?thesis
    using rd kinds assms(3-7)
    by (simp add: visitFunc_def Let_def call_Create_def call_Exists_def call_Set_def err_of_def)
qed

text \<open>
  Claim C3 at an input where the program departs from it. \<open>doDelete\<close> does not look
  at what \<open>c.Delete\<close> returns. Here another writer sets the data of \<open>/r/a\<close> right
  after this client has listed its children and read version 3; the \<open>Delete\<close> with
  version 3 is refused with a version conflict, and \<open>doDelete\<close> returns as if it had
  succeeded, with the node still there.
\<close>

theorem doDelete_ignores_version_conflict:
  "map_option (\<lambda>(out, w1). (out, trace w1, zfind [''r'', ''a''] (ztree (remote w1)) \<noteq> None))
     (doDelete 1 racing_conn ''/r/a'' (sample_world []))
   = Some (Returned,
       [Zk (Children ''/r/a'') None,
        LogPrintf ''Will delete %s'' [AStr ''/r/a''],
        Zk (Delete ''/r/a'' 3) (Some ErrBadVersion)],
       True)"
  by code_simp

subsection \<open>Upload leaves the local file system alone\<close>

lemma call_lfs [simp]:
  "lfs (snd (call_Children c p w)) = lfs w"
  "lfs (snd (call_Get c p w)) = lfs w"
  "lfs (snd (call_Create c p d w)) = lfs w"
  "lfs (snd (call_Exists c p w)) = lfs w"
  "lfs (snd (call_Set c p d v w)) = lfs w"
  "lfs (snd (call_Delete c p v w)) = lfs w"
  by (simp_all add: call_defs split: prod.splits)

lemma visitFunc_lfs: "lfs (snd (visitFunc c sp al vp fi err w)) = lfs w"
proof -
  have a: "call_Create c p d w = (r, w1) \<Longrightarrow> lfs w1 = lfs w" for p d r w1 and w :: "'a world"
    using call_lfs(3)[of c p d w] by simp
  have b: "call_Exists c p w = (r, w1) \<Longrightarrow> lfs w1 = lfs w" for p r w1 and w :: "'a world"
    using call_lfs(4)[of c p w] by simp
  have d: "call_Set c p dd v w = (r, w1) \<Longrightarrow> lfs w1 = lfs w" for p dd v r w1 and w :: "'a world"
    using call_lfs(5)[of c p dd v w] by simp
  show ?thesis
    by (auto simp: visitFunc_def Let_def split: option.splits sum.splits prod.splits dest!: a b d)
qed

lemma ensureRemotePath_lfs:
  "ensureRemotePath n c p w = Some (out, w1) \<Longrightarrow> lfs w1 = lfs w"
proof (induction n arbitrary: p w out w1)
  case 0
  then show ?case by simp
next
  case (Suc n)
  have a: "call_Create c q d v = (r, v1) \<Longrightarrow> lfs v1 = lfs v" for q d r v1 and v :: "'a world"
    using call_lfs(3)[of c q d v] by simp
  from Suc.prems show ?case
    by (auto split: if_splits option.splits prod.splits sum.splits dest!: Suc.IH a)
qed

lemma walk_names_lfs:
  assumes fn: "\<And>p i e v r v1. walkFn p i e v = (r, v1) \<Longrightarrow> lfs v1 = lfs v"
    and wk: "\<And>q i v r v1. walk n walkFn q i v = Some (r, v1) \<Longrightarrow> lfs v1 = lfs v"
  shows "walk_names n walkFn p names w = Some (r, w1) \<Longrightarrow> lfs w1 = lfs w"
proof (induction names arbitrary: w r w1)
  case Nil
  then show ?case by simp
next
  case (Cons name rest)
  have ih: "\<And>v r v1. walk_names n walkFn p rest v = Some (r, v1) \<Longrightarrow> lfs v1 = lfs v"
    using Cons.IH by blast
  from Cons.prems show ?case
    by (auto simp: Let_def split: sum.splits prod.splits option.splits if_splits
          dest!: fn wk ih)
qed

lemma walk_lfs:
  assumes fn: "\<And>p i e v r v1. walkFn p i e v = (r, v1) \<Longrightarrow> lfs v1 = lfs v"
  shows "walk n walkFn p info w = Some (r, w1) \<Longrightarrow> lfs w1 = lfs w"
proof (induction n arbitrary: p info w r w1)
  case 0
  then show ?case by simp
next
  case (Suc n)
  have nm: "lfs v1 = lfs v" if "walk_names n walkFn q names v = Some (r, v1)" for q names v r v1
  proof (rule walk_names_lfs[where walkFn = walkFn and n = n and p = q and names = names and r = r])
    show "\<And>p i e v r v1. walkFn p i e v = (r, v1) \<Longrightarrow> lfs v1 = lfs v" by (rule fn)
    show "\<And>q i v r v1. walk n walkFn q i v = Some (r, v1) \<Longrightarrow> lfs v1 = lfs v" by (rule Suc.IH)
    show "walk_names n walkFn q names v = Some (r, v1)" by (rule that)
  qed
  from Suc.prems show ?case
    by (auto split: if_splits prod.splits sum.splits dest!: fn nm)
qed

lemma filepath_Walk_lfs:
  assumes fn: "\<And>p i e v r v1. walkFn p i e v = (r, v1) \<Longrightarrow> lfs v1 = lfs v"
  shows "filepath_Walk n root walkFn w = Some (r, w1) \<Longrightarrow> lfs w1 = lfs w"
proof (cases "os_Lstat (lfs w) root")
  case (Inl lerr)
  assume "filepath_Walk n root walkFn w = Some (r, w1)"
  with Inl have "walkFn root None (Some lerr) w = (r, w1)" by (simp add: filepath_Walk_def)
  then show ?thesis by (rule fn)
next
  case (Inr info)
  assume "filepath_Walk n root walkFn w = Some (r, w1)"
  with Inr have run: "walk n walkFn root info w = Some (r, w1)" by (simp add: filepath_Walk_def)
  show ?thesis
  proof (rule walk_lfs[where walkFn = walkFn and n = n and p = root and info = info and r = r])
    show "\<And>p i e v r v1. walkFn p i e v = (r, v1) \<Longrightarrow> lfs v1 = lfs v" by (rule fn)
    show "walk n walkFn root info w = Some (r, w1)" by (rule run)
  qed
qed

text \<open>
  Claim C9. Whatever the service answers and however the upload ends (it returns or
  panics), the local file system after \<open>doUpload\<close> is the one before it: every entry
  has the content and the modification time it had. The upload only reads it
  (\<open>Lstat\<close>, directory listings, \<open>ReadFile\<close>); all its writes are calls to the service.
\<close>

theorem doUpload_keeps_local_files:
  "doUpload n c serverPrefix localPrefix w = Some (out, w1) \<Longrightarrow> lfs w1 = lfs w"
proof -
  assume run: "doUpload n c serverPrefix localPrefix w = Some (out, w1)"
  let ?abs = "filepath_Abs (wd (lfs w)) localPrefix"
  let ?fn = "visitFunc c serverPrefix ?abs"
  have fn: "\<And>p i e v r v1. ?fn p i e v = (r, v1) \<Longrightarrow> lfs v1 = lfs v"
    using visitFunc_lfs by (metis snd_conv)
  from run obtain w0 where e: "ensureRemotePath n c serverPrefix w = Some (Returned, w0) \<and>
       (\<exists>r. filepath_Walk n ?abs ?fn w0 = Some (r, w1))
     \<or> (ensureRemotePath n c serverPrefix w = Some (out, w1))"
    by (auto simp: doUpload_def Let_def split: option.splits prod.splits if_splits sum.splits)
  have wl: "lfs v1 = lfs v" if "filepath_Walk n ?abs ?fn v = Some (r, v1)" for v r v1
  proof (rule filepath_Walk_lfs[where walkFn = ?fn and n = n and root = ?abs and r = r])
    show "\<And>p i e v r v1. ?fn p i e v = (r, v1) \<Longrightarrow> lfs v1 = lfs v" by (rule fn)
    show "filepath_Walk n ?abs ?fn v = Some (r, v1)" by (rule that)
  qed
  from e show ?thesis
  proof
    assume a: "ensureRemotePath n c serverPrefix w = Some (Returned, w0) \<and>
       (\<exists>r. filepath_Walk n ?abs ?fn w0 = Some (r, w1))"
    then have "lfs w0 = lfs w" using ensureRemotePath_lfs by blast
    moreover from a have "lfs w1 = lfs w0" using wl by blast
    ultimately show ?thesis by simp
  next
    assume "ensureRemotePath n c serverPrefix w = Some (out, w1)"
    then show ?thesis by (rule ensureRemotePath_lfs)
  qed
qed

theorem doUpload_keeps_local_files_witness:
  "map_option (\<lambda>(out, w1). (out, lfs w1,
       map_option zdata (zfind [''s'', ''f''] (ztree (remote w1)))))
     (doUpload 3 tree_conn ''/s'' ''/up''
        (sample_world [(''/up'', \<lparr>kind = Directory, modTime = \<lparr>t_sec = 0, t_nsec = 0\<rparr>\<rparr>),
                       (''/up/f'', local_file [4] 3)]))
   = Some (Returned,
       lfs (sample_world [(''/up'', \<lparr>kind = Directory, modTime = \<lparr>t_sec = 0, t_nsec = 0\<rparr>\<rparr>),
                       (''/up/f'', local_file [4] 3)]),
       Some [4])"
proof -
  let ?w = "sample_world [(''/up'', \<lparr>kind = Directory, modTime = \<lparr>t_sec = 0, t_nsec = 0\<rparr>\<rparr>),
                       (''/up/f'', local_file [4] 3)]"
  have "map_option (\<lambda>(out, w1). (out, map_option zdata (zfind [''s'', ''f''] (ztree (remote w1)))))
          (doUpload 3 tree_conn ''/s'' ''/up'' ?w) = Some (Returned, Some [4])"
    by code_simp
  then obtain w1 where r: "doUpload 3 tree_conn ''/s'' ''/up'' ?w = Some (Returned, w1)"
     "map_option zdata (zfind [''s'', ''f''] (ztree (remote w1))) = Some [4]" by auto
  from doUpload_keeps_local_files [OF r(1)] r show ?thesis by simp
qed

subsection \<open>The two versions of doDelete\<close>

lemma zk_calls_append [simp]: "zk_calls (xs @ ys) = zk_calls xs @ zk_calls ys"
  by (induction xs) (auto simp: zk_calls_def)

lemma zk_calls_simps [simp]:
  "zk_calls [] = []"
  "zk_calls [Zk k r] = [(k, r)]"
  "zk_calls [LogPrintf f a] = []"
  "zk_calls [FmtPrintf f a] = []"
  "zk_calls [LogFatalf f a] = []"
  by (simp_all add: zk_calls_def)

lemma sim_emit: "sim w v \<Longrightarrow> sim (emit (LogPrintf f a) w) (emit (FmtPrintf g b) v)"
  by (simp add: sim_def emit_def)

lemma sim_Children:
  "sim w v \<Longrightarrow> fst (call_Children c p w) = fst (call_Children c p v)
     \<and> sim (snd (call_Children c p w)) (snd (call_Children c p v))"
  by (simp add: sim_def call_Children_def split: prod.splits)

lemma sim_Delete:
  "sim w v \<Longrightarrow> sim (snd (call_Delete c p ver w)) (snd (call_Delete c p ver v))"
  by (simp add: sim_def call_Delete_def split: prod.splits)

lemma doDelete_range_sim:
  assumes step: "\<And>p w v. sim w v \<Longrightarrow> sim_res (doDelete n c p w) (doDelete_part000 n c p v)"
  shows "sim w v \<Longrightarrow>
     sim_res (doDelete_range n c p children w) (doDelete_part000_range n c p children v)"
proof (induction children arbitrary: w v)
  case Nil
  then show ?case by (simp add: sim_res_def)
next
  case (Cons child rest)
  from step[OF Cons.prems, of "path_Join [p, child]"]
  show ?case
  proof (cases "doDelete n c (path_Join [p, child]) w")
    case None
    with step[OF Cons.prems, of "path_Join [p, child]"] show ?thesis
      by (auto simp: sim_res_def split: option.splits)
  next
    case (Some a)
    obtain o1 w1 where a: "a = (o1, w1)" by (cases a)
    with Some step[OF Cons.prems, of "path_Join [p, child]"]
    obtain w2 where b: "doDelete_part000 n c (path_Join [p, child]) v = Some (o1, w2)" "sim w1 w2"
      by (auto simp: sim_res_def split: option.splits)
    show ?thesis
    proof (cases "o1 = Returned")
      case True
      with Some a b Cons.IH[OF b(2)] show ?thesis by simp
    next
      case False
      with Some a b show ?thesis by (simp add: sim_res_def)
    qed
  qed
qed

lemma doDelete_sim:
  "sim w v \<Longrightarrow> sim_res (doDelete n c p w) (doDelete_part000 n c p v)"
proof (induction n arbitrary: p w v)
  case 0
  then show ?case by (simp add: sim_res_def)
next
  case (Suc n)
  obtain r w1 where cw: "call_Children c p w = (r, w1)" by force
  obtain r' v1 where cv: "call_Children c p v = (r', v1)" by force
  from sim_Children[OF Suc.prems, of c p] cw cv have rr: "r' = r" and s1: "sim w1 v1" by simp_all
  show ?case
  proof (cases r)
    case (Inl err)
    with cw cv rr s1 show ?thesis
      by (auto simp: sim_res_def intro: sim_emit)
  next
    case (Inr cs)
    obtain children stat where cs: "cs = (children, stat)" by (cases cs)
    have rng: "sim_res (doDelete_range n c p children w1) (doDelete_part000_range n c p children v1)"
      by (rule doDelete_range_sim[OF Suc.IH s1])
    show ?thesis
    proof (cases "doDelete_range n c p children w1")
      case None
      with rng have "doDelete_part000_range n c p children v1 = None"
        by (auto simp: sim_res_def split: option.splits)
      with None Inr cs cw cv rr show ?thesis by (simp add: sim_res_def)
    next
      case (Some a)
      obtain o1 w2 where a: "a = (o1, w2)" by (cases a)
      with Some rng obtain v2 where b: "doDelete_part000_range n c p children v1 = Some (o1, v2)" "sim w2 v2"
        by (auto simp: sim_res_def split: option.splits)
      show ?thesis
      proof (cases "o1 = Returned")
        case True
        have "sim (snd (call_Delete c p (Version stat) (emit (LogPrintf ''Will delete %s'' [AStr p]) w2)))
                  (snd (call_Delete c p (Version stat) (emit (FmtPrintf ''Will delete %s'' [AStr p]) v2)))"
          by (intro sim_Delete sim_emit b(2))
        with True Some a b Inr cs cw cv rr show ?thesis by (simp add: sim_res_def)
      next
        case False
        with Some a b Inr cs cw cv rr show ?thesis by (simp add: sim_res_def)
      qed
    qed
  qed
qed

text \<open>
  Claim C10. From any state of any service and for any bound, \<open>doDelete\<close> of
  src/configurator.go and \<open>doDelete\<close> of src/unnamed/part_000 end in the same way,
  leave the service in the same state, and have made the same calls to it, with the
  same paths, versions and answers, in the same order; they differ only in where
  their messages go.
\<close>

theorem doDelete_versions_same_calls:
  "map_option (\<lambda>(out, w1). (out, remote w1, zk_calls (trace w1))) (doDelete n c serverPrefix w)
   = map_option (\<lambda>(out, w1). (out, remote w1, zk_calls (trace w1)))
       (doDelete_part000 n c serverPrefix w)"
proof -
  have "sim w w" by (simp add: sim_def)
  from doDelete_sim[OF this, of n c serverPrefix] show ?thesis
    by (auto simp: sim_res_def sim_def split: option.splits)
qed

theorem doDelete_versions_same_calls_witness:
  "map_option (\<lambda>(out, w1). (out, zk_calls (trace w1))) (doDelete_part000 3 tree_conn ''/r/b'' (sample_world []))
   = Some (Returned,
       [(Children ''/r/b'', None), (Children ''/r/b/c'', None), (Delete ''/r/b/c'' 1, None),
        (Delete ''/r/b'' 0, None)])
   \<and> map_option (\<lambda>(out, w1). (out, zk_calls (trace w1))) (doDelete 3 tree_conn ''/r/b'' (sample_world []))
   = Some (Returned,
       [(Children ''/r/b'', None), (Children ''/r/b/c'', None), (Delete ''/r/b/c'' 1, None),
        (Delete ''/r/b'' 0, None)])"
proof -
  have a: "map_option (\<lambda>(out, w1). (out, zk_calls (trace w1))) (doDelete_part000 3 tree_conn ''/r/b'' (sample_world []))
   = Some (Returned,
       [(Children ''/r/b'', None), (Children ''/r/b/c'', None), (Delete ''/r/b/c'' 1, None),
        (Delete ''/r/b'' 0, None)])"
    by code_simp
  have "map_option (\<lambda>(out, w1). (out, zk_calls (trace w1))) x
      = map_option (\<lambda>(out, r, k). (out, k)) (map_option (\<lambda>(out, w1). (out, remote w1, zk_calls (trace w1))) x)"
    for x :: "(outcome \<times> zserver world) option"
    by (cases x) auto
  with a doDelete_versions_same_calls [of 3 tree_conn "''/r/b''" "sample_world []"]
  show ?thesis by simp
qed

subsection \<open>Paths: splitting, cleaning and joining\<close>

lemma split_slash_nonempty [simp]: "split_slash p \<noteq> []"
  by (induction p) auto

lemma split_slash_append:
  "split_slash (a @ CHR ''/'' # b) = split_slash a @ split_slash b"
  by (induction a) (auto simp: hd_append)

lemma split_slash_plain: "CHR ''/'' \<notin> set e \<Longrightarrow> split_slash e = [e]"
  by (induction e) auto

lemma split_slash_no_slash: "e \<in> set (split_slash p) \<Longrightarrow> CHR ''/'' \<notin> set e"
proof (induction p arbitrary: e)
  case Nil
  then show ?case by simp
next
  case (Cons c p)
  show ?case
  proof (cases "c = CHR ''/''")
    case True
    with Cons show ?thesis by auto
  next
    case False
    have ne: "split_slash p \<noteq> []" by simp
    from Cons.prems False have "e = c # hd (split_slash p) \<or> e \<in> set (tl (split_slash p))"
      by auto
    then show ?thesis
    proof
      assume "e = c # hd (split_slash p)"
      moreover have "CHR ''/'' \<notin> set (hd (split_slash p))"
        using Cons.IH[of "hd (split_slash p)"] ne by simp
      ultimately show ?thesis using False by auto
    next
      assume "e \<in> set (tl (split_slash p))"
      then have "e \<in> set (split_slash p)" using ne by (meson list.set_sel(2))
      then show ?thesis by (rule Cons.IH)
    qed
  qed
qed

lemma join_slash_snoc:
  "join_slash (es @ [e]) = (if es = [] then e else join_slash es @ CHR ''/'' # e)"
  by (induction es rule: join_slash.induct) auto

lemma split_join_slash:
  "es \<noteq> [] \<Longrightarrow> \<forall>e\<in>set es. CHR ''/'' \<notin> set e \<Longrightarrow> split_slash (join_slash es) = es"
proof (induction es rule: join_slash.induct)
  case 1
  then show ?case by simp
next
  case (2 c)
  then show ?case by (simp add: split_slash_plain)
next
  case (3 c d ds)
  then show ?case by (simp add: split_slash_append split_slash_plain)
qed

lemma valid_name_no_slash: "valid_name e \<Longrightarrow> CHR ''/'' \<notin> set e"
  by (simp add: valid_name_def)

lemma split_abs_path:
  "list_all valid_name es \<Longrightarrow>
     split_slash (abs_path es) = [] # (if es = [] then [[]] else es)"
  by (auto simp: abs_path_def list_all_iff split_join_slash valid_name_no_slash)

lemma foldl_clean_step:
  "\<forall>e\<in>set es. e = [] \<or> valid_name e \<Longrightarrow>
     foldl (clean_step r) out es = out @ filter (\<lambda>e. e \<noteq> []) es"
proof (induction es arbitrary: out)
  case Nil
  then show ?case by simp
next
  case (Cons e es)
  then have "clean_step r out e = (if e = [] then out else out @ [e])"
    by (auto simp: clean_step_def valid_name_def)
  with Cons show ?case by auto
qed

lemma filter_valid: "list_all valid_name es \<Longrightarrow> filter (\<lambda>e. e \<noteq> []) es = es"
  by (induction es) (auto simp: valid_name_def)

lemma path_Clean_rooted:
  assumes "\<forall>e\<in>set (split_slash x). e = [] \<or> valid_name e"
  shows "path_Clean (CHR ''/'' # x) = abs_path (filter (\<lambda>e. e \<noteq> []) (split_slash x))"
  using assms by (simp add: path_Clean_def clean_elems_def foldl_clean_step abs_path_def clean_step_def)

lemma path_Clean_abs_path:
  "list_all valid_name es \<Longrightarrow> path_Clean (abs_path es) = abs_path es"
proof -
  assume v: "list_all valid_name es"
  have "split_slash (join_slash es) = (if es = [] then [[]] else es)"
    using split_abs_path[OF v] by (simp add: abs_path_def)
  then have "path_Clean (CHR ''/'' # join_slash es) = abs_path es"
    using v by (subst path_Clean_rooted) (auto simp: list_all_iff filter_valid)
  then show ?thesis by (simp add: abs_path_def)
qed

lemma canonical_abs_path: "list_all valid_name es \<Longrightarrow> canonical_abs (abs_path es)"
  by (simp add: canonical_abs_def path_Clean_abs_path) (simp add: abs_path_def)

lemma path_Join_abs_suffix:
  assumes "list_all valid_name ds" "list_all valid_name es" "es \<noteq> []"
  shows "path_Join [abs_path ds, join_slash es] = abs_path (ds @ es)"
    and "path_Join [abs_path ds, CHR ''/'' # join_slash es] = abs_path (ds @ es)"
proof -
  have sj: "split_slash (join_slash es) = es"
    using assms(2,3) by (simp add: split_join_slash list_all_iff valid_name_no_slash)
  have ne: "join_slash es \<noteq> []"
    using sj by (metis list.distinct(1) list.sel(1) split_slash.simps(1) assms(2) assms(3)
                  list.set_sel(1) list_all_iff valid_name_def hd_in_set)
  have sd: "split_slash (join_slash ds) = (if ds = [] then [[]] else ds)"
    using split_abs_path[OF assms(1)] by (simp add: abs_path_def)
  have all: "\<forall>e\<in>set (ds @ es). e = [] \<or> valid_name e"
    using assms(1,2) by (auto simp: list_all_iff)
  have f: "filter (\<lambda>e. e \<noteq> []) (ds @ es) = ds @ es"
    using assms(1,2) by (simp add: filter_valid)
  have "path_Clean (CHR ''/'' # (join_slash ds @ CHR ''/'' # join_slash es)) = abs_path (ds @ es)"
    using all f assms(1,2)
    by (subst path_Clean_rooted) (auto simp: split_slash_append sd sj list_all_iff filter_valid)
  then show "path_Join [abs_path ds, join_slash es] = abs_path (ds @ es)"
    using ne by (simp add: path_Join_def abs_path_def)
  have "path_Clean (CHR ''/'' # (join_slash ds @ CHR ''/'' # CHR ''/'' # join_slash es)) = abs_path (ds @ es)"
    using all f assms(1,2)
    by (subst path_Clean_rooted) (auto simp: split_slash_append sd sj list_all_iff filter_valid)
  then show "path_Join [abs_path ds, CHR ''/'' # join_slash es] = abs_path (ds @ es)"
    by (simp add: path_Join_def abs_path_def)
qed

lemma path_Join_abs_name:
  assumes "list_all valid_name ds" "valid_name e"
  shows "path_Join [abs_path ds, e] = abs_path (ds @ [e])"
  using path_Join_abs_suffix(1)[OF assms(1), of "[e]"] assms(2) by simp

lemma path_Join_abs_empty:
  "list_all valid_name ds \<Longrightarrow> path_Join [abs_path ds, []] = abs_path ds"
  using path_Clean_abs_path[of ds] by (simp add: path_Join_def abs_path_def)

subsection \<open>The recursion of ensureRemotePath\<close>

lemma dir_part_snoc:
  "CHR ''/'' \<notin> set e \<Longrightarrow> dir_part (x @ CHR ''/'' # e) = x @ [CHR ''/'']"
proof -
  assume a: "CHR ''/'' \<notin> set e"
  have "dropWhile (\<lambda>c. c \<noteq> CHR ''/'') (rev e @ CHR ''/'' # rev x) = CHR ''/'' # rev x"
    using a by (subst dropWhile_append2) auto
  then show ?thesis by (simp add: dir_part_def)
qed

lemma abs_path_snoc:
  "abs_path (ds @ [e]) = (if ds = [] then [] else abs_path ds) @ CHR ''/'' # e"
  by (simp add: abs_path_def join_slash_snoc)

lemma path_Dir_abs_path_snoc:
  assumes "list_all valid_name ds" "valid_name e"
  shows "path_Dir (abs_path (ds @ [e])) = abs_path ds"
proof (cases "ds = []")
  case True
  have "dir_part (CHR ''/'' # e) = [CHR ''/'']"
    using dir_part_snoc[of e "[]"] assms(2) by (simp add: valid_name_def)
  then show ?thesis using True
    by (simp add: path_Dir_def abs_path_def path_Clean_def clean_elems_def clean_step_def)
next
  case False
  have d: "dir_part (abs_path (ds @ [e])) = abs_path ds @ [CHR ''/'']"
    using dir_part_snoc[of e "abs_path ds"] assms(2) False
    by (simp add: abs_path_snoc valid_name_def)
  have sd: "split_slash (join_slash ds) = ds"
    using split_abs_path[OF assms(1)] False by (simp add: abs_path_def)
  have "path_Clean (CHR ''/'' # (join_slash ds @ CHR ''/'' # [])) = abs_path ds"
    using assms(1)
    by (subst path_Clean_rooted) (auto simp: split_slash_append sd list_all_iff filter_valid)
  then show ?thesis by (simp add: path_Dir_def d) (simp add: abs_path_def)
qed

lemma path_elems_abs_path: "list_all valid_name ds \<Longrightarrow> path_elems (abs_path ds) = length ds"
  by (auto simp: path_elems_def split_abs_path filter_valid)

lemma abs_path_eq_root: "list_all valid_name ds \<Longrightarrow> abs_path ds = ''/'' \<longleftrightarrow> ds = []"
proof
  assume v: "list_all valid_name ds" and r: "abs_path ds = ''/''"
  have "path_elems ''/'' = 0" by (simp add: path_elems_def)
  with path_elems_abs_path[OF v] r show "ds = []" by simp
qed (simp add: abs_path_def)

text \<open>What \<open>Clean\<close> writes are names: not empty and without a slash.\<close>

lemma clean_step_names:
  assumes "\<forall>x\<in>set out. x \<noteq> [] \<and> CHR ''/'' \<notin> set x" "CHR ''/'' \<notin> set e"
  shows "\<forall>x\<in>set (clean_step r out e). x \<noteq> [] \<and> CHR ''/'' \<notin> set x"
  using assms by (auto simp: clean_step_def dest: in_set_butlastD)

lemma foldl_clean_step_names:
  assumes "\<forall>x\<in>set out. x \<noteq> [] \<and> CHR ''/'' \<notin> set x" "\<forall>e\<in>set es. CHR ''/'' \<notin> set e"
  shows "\<forall>x\<in>set (foldl (clean_step r) out es). x \<noteq> [] \<and> CHR ''/'' \<notin> set x"
  using assms
proof (induction es arbitrary: out)
  case Nil
  then show ?case by simp
next
  case (Cons e es)
  have s: "\<forall>x\<in>set (clean_step r out e). x \<noteq> [] \<and> CHR ''/'' \<notin> set x"
  proof (rule clean_step_names)
    show "\<forall>x\<in>set out. x \<noteq> [] \<and> CHR ''/'' \<notin> set x" by (rule Cons.prems(1))
    show "CHR ''/'' \<notin> set e" using Cons.prems(2) by simp
  qed
  have t: "\<forall>e\<in>set es. CHR ''/'' \<notin> set e" using Cons.prems(2) by simp
  have "\<forall>x\<in>set (foldl (clean_step r) (clean_step r out e) es). x \<noteq> [] \<and> CHR ''/'' \<notin> set x"
    using s t by (rule Cons.IH)
  then show ?case by simp
qed

lemma clean_elems_names:
  "x \<in> set (clean_elems r p) \<Longrightarrow> x \<noteq> [] \<and> CHR ''/'' \<notin> set x"
  using foldl_clean_step_names[of "[]" "split_slash p" r] split_slash_no_slash
  by (auto simp: clean_elems_def)

lemma clean_step_rooted_valid:
  assumes "list_all valid_name out" "CHR ''/'' \<notin> set e"
  shows "list_all valid_name (clean_step True out e)"
  using assms by (auto simp: clean_step_def list_all_iff valid_name_def dest: in_set_butlastD)

lemma foldl_clean_step_rooted_valid:
  assumes "list_all valid_name out" "\<forall>e\<in>set es. CHR ''/'' \<notin> set e"
  shows "list_all valid_name (foldl (clean_step True) out es)"
  using assms
proof (induction es arbitrary: out)
  case Nil
  then show ?case by simp
next
  case (Cons e es)
  have s: "list_all valid_name (clean_step True out e)"
  proof (rule clean_step_rooted_valid)
    show "list_all valid_name out" by (rule Cons.prems(1))
    show "CHR ''/'' \<notin> set e" using Cons.prems(2) by simp
  qed
  have t: "\<forall>e\<in>set es. CHR ''/'' \<notin> set e" using Cons.prems(2) by simp
  have "list_all valid_name (foldl (clean_step True) (clean_step True out e) es)"
    using s t by (rule Cons.IH)
  then show ?case by simp
qed

lemma canonical_abs_elems:
  assumes "canonical_abs p"
  shows "list_all valid_name (clean_elems True p) \<and> p = abs_path (clean_elems True p)"
proof -
  have v: "list_all valid_name (clean_elems True p)"
    unfolding clean_elems_def
    by (rule foldl_clean_step_rooted_valid) (auto dest: split_slash_no_slash)
  from assms have "p = CHR ''/'' # join_slash (clean_elems True p)"
    by (auto simp: canonical_abs_def path_Clean_def split: if_splits)
  with v show ?thesis by (simp add: abs_path_def)
qed

text \<open>A path that does not start at the root has a parent that does not either.\<close>

lemma hd_join_slash: "es \<noteq> [] \<Longrightarrow> hd es \<noteq> [] \<Longrightarrow> hd (join_slash es) = hd (hd es)"
  by (induction es rule: join_slash.induct) auto

lemma join_slash_nonempty: "es \<noteq> [] \<Longrightarrow> hd es \<noteq> [] \<Longrightarrow> join_slash es \<noteq> []"
  by (induction es rule: join_slash.induct) auto

lemma path_Clean_relative:
  assumes "p = [] \<or> hd p \<noteq> CHR ''/''"
  shows "path_Clean p \<noteq> [] \<and> hd (path_Clean p) \<noteq> CHR ''/''"
proof (cases "p = [] \<or> clean_elems False p = []")
  case True
  with assms show ?thesis by (auto simp: path_Clean_def)
next
  case False
  let ?es = "clean_elems False p"
  from False have ne: "?es \<noteq> []" by simp
  then have h: "hd ?es \<in> set ?es" by simp
  from clean_elems_names[OF h] have hh: "hd ?es \<noteq> []" "CHR ''/'' \<notin> set (hd ?es)" by simp_all
  then have "hd (hd ?es) \<noteq> CHR ''/''" by (cases "hd ?es") auto
  with hd_join_slash[OF ne hh(1)] join_slash_nonempty[OF ne hh(1)] False assms
  show ?thesis by (auto simp: path_Clean_def)
qed

lemma dir_part_relative:
  assumes "p = [] \<or> hd p \<noteq> CHR ''/''"
  shows "dir_part p = [] \<or> hd (dir_part p) \<noteq> CHR ''/''"
proof (cases "dir_part p = []")
  case True
  then show ?thesis by simp
next
  case False
  have "\<exists>s. p = dir_part p @ s"
    unfolding dir_part_def
    by (metis rev_append rev_rev_ident takeWhile_dropWhile_id)
  then obtain s where "p = dir_part p @ s" by blast
  with False have "hd p = hd (dir_part p)" by (metis hd_append2)
  with assms False show ?thesis by (cases p) (auto simp: dir_part_def)
qed

lemma path_Dir_relative:
  assumes "p = [] \<or> hd p \<noteq> CHR ''/''"
  shows "path_Dir p \<noteq> [] \<and> hd (path_Dir p) \<noteq> CHR ''/''"
  unfolding path_Dir_def by (rule path_Clean_relative) (rule dir_part_relative[OF assms])

lemma ensureRemotePath_relative:
  "p = [] \<or> hd p \<noteq> CHR ''/'' \<Longrightarrow> ensureRemotePath n c p w = None"
proof (induction n arbitrary: p)
  case 0
  then show ?case by simp
next
  case (Suc n)
  have "path_Dir p = [] \<or> hd (path_Dir p) \<noteq> CHR ''/''"
    using path_Dir_relative[OF Suc.prems] by simp
  then have "ensureRemotePath n c (path_Dir p) w = None" by (rule Suc.IH)
  moreover have "p \<noteq> ''/''" using Suc.prems by auto
  ultimately show ?case by simp
qed

lemma ensureRemotePath_abs_path:
  "list_all valid_name ds \<Longrightarrow> length ds < n \<Longrightarrow>
     \<exists>out w1. ensureRemotePath n c (abs_path ds) w = Some (out, w1)"
proof (induction ds arbitrary: n rule: rev_induct)
  case Nil
  then obtain m where "n = Suc m" by (cases n) auto
  then show ?case by (simp add: abs_path_def)
next
  case (snoc e ds)
  then obtain m where n: "n = Suc m" and m: "length ds < m" by (cases n) auto
  from snoc.prems have v: "list_all valid_name ds" "valid_name e" by simp_all
  from snoc.IH[OF v(1) m] obtain out w1 where
    r: "ensureRemotePath m c (abs_path ds) w = Some (out, w1)" by blast
  have nr: "abs_path (ds @ [e]) \<noteq> ''/''"
    using abs_path_eq_root[of "ds @ [e]"] snoc.prems(1) by simp
  show ?case
    using r nr n by (auto simp: path_Dir_abs_path_snoc[OF v] split: prod.splits sum.splits)
qed

text \<open>
  Claim C8. Let \<open>p\<close> be a canonical absolute path. Unless \<open>p\<close> is the root \<open>/\<close>, its
  parent \<open>path.Dir(p)\<close>, on which \<open>ensureRemotePath\<close> calls itself, is again canonical
  and absolute and has strictly fewer elements; so the recursion reaches the root,
  and \<open>ensureRemotePath\<close> ends (it returns, or panics on an error of the service) for
  every bound on the depth of calls above the number of elements of \<open>p\<close>. For a path
  \<open>q\<close> that does not start with a slash there is no such descent: its parent is
  never the root, and \<open>ensureRemotePath\<close> ends for no bound.
\<close>

theorem ensureRemotePath_terminates:
  assumes "canonical_abs p"
  shows "(p \<noteq> ''/'' \<longrightarrow>
            canonical_abs (path_Dir p) \<and> path_elems (path_Dir p) < path_elems p)
       \<and> (path_elems p < n \<longrightarrow> (\<exists>out w1. ensureRemotePath n c p w = Some (out, w1)))
       \<and> (q = [] \<or> hd q \<noteq> CHR ''/'' \<longrightarrow>
            path_Dir q \<noteq> ''/'' \<and> ensureRemotePath m c q w = None)"
proof -
  let ?ds = "clean_elems True p"
  from canonical_abs_elems[OF assms] have v: "list_all valid_name ?ds" and p: "p = abs_path ?ds"
    by simp_all
  have a: "p \<noteq> ''/'' \<longrightarrow> canonical_abs (path_Dir p) \<and> path_elems (path_Dir p) < path_elems p"
  proof
    assume "p \<noteq> ''/''"
    with p have "?ds \<noteq> []" by (auto simp: abs_path_def)
    then obtain es e where s: "?ds = es @ [e]" by (metis rev_exhaust)
    with v have ve: "list_all valid_name es" "valid_name e" by simp_all
    have "path_Dir p = abs_path es"
      using p s path_Dir_abs_path_snoc[OF ve] by simp
    moreover have "path_elems p = Suc (length es)"
      using p s path_elems_abs_path[OF v] by simp
    ultimately show "canonical_abs (path_Dir p) \<and> path_elems (path_Dir p) < path_elems p"
      using canonical_abs_path[OF ve(1)] path_elems_abs_path[OF ve(1)] by simp
  qed
  have b: "path_elems p < n \<longrightarrow> (\<exists>out w1. ensureRemotePath n c p w = Some (out, w1))"
  proof
    assume "path_elems p < n"
    then have "length ?ds < n" using p path_elems_abs_path[OF v] by simp
    from ensureRemotePath_abs_path[OF v this, of c w] p
    show "\<exists>out w1. ensureRemotePath n c p w = Some (out, w1)" by simp
  qed
  have c: "q = [] \<or> hd q \<noteq> CHR ''/'' \<longrightarrow> path_Dir q \<noteq> ''/'' \<and> ensureRemotePath m c q w = None"
    using path_Dir_relative[of q] ensureRemotePath_relative[of q m c w] by auto
  from a b c show ?thesis by blast
qed

theorem ensureRemotePath_terminates_witness:
  "canonical_abs ''/s/t''
   \<and> path_Dir ''/s/t'' = ''/s'' \<and> path_elems ''/s'' < path_elems ''/s/t''
   \<and> (\<exists>out w1. ensureRemotePath 3 tree_conn ''/s/t'' (sample_world []) = Some (out, w1))
   \<and> ensureRemotePath 3 tree_conn ''s/t'' (sample_world []) = None"
proof -
  have h: "canonical_abs ''/s/t''" by (simp add: canonical_abs_def path_defs)
  have d: "path_Dir ''/s/t'' = ''/s''" by (simp add: path_defs)
  have e: "path_elems ''/s/t'' < 3" by (simp add: path_elems_def)
  have r: "''s/t'' = [] \<or> hd ''s/t'' \<noteq> CHR ''/''" by simp
  have n: "''/s/t'' \<noteq> ''/''" by simp
  from ensureRemotePath_terminates [OF h, of 3 tree_conn "sample_world []" "''s/t''" 3] h d e r n
  show ?thesis by simp
qed

subsection \<open>The pairing of local and remote paths\<close>

lemma walk_path_abs:
  "list_all valid_name ls \<Longrightarrow> list_all valid_name names \<Longrightarrow>
     walk_path (abs_path ls) names = abs_path (ls @ names)"
proof (induction names arbitrary: ls)
  case Nil
  then show ?case by simp
next
  case (Cons name rest)
  then have v: "list_all valid_name (ls @ [name])" by simp
  from Cons.prems have "path_Join [abs_path ls, name] = abs_path (ls @ [name])"
    by (simp add: path_Join_abs_name)
  with Cons.IH[OF v] Cons.prems show ?case by simp
qed

lemma download_paths_abs:
  "list_all valid_name rs \<Longrightarrow> list_all valid_name ls \<Longrightarrow> list_all valid_name names \<Longrightarrow>
     download_paths (abs_path rs) (abs_path ls) names = (abs_path (rs @ names), abs_path (ls @ names))"
proof (induction names arbitrary: rs ls)
  case Nil
  then show ?case by simp
next
  case (Cons name rest)
  then have v: "list_all valid_name (rs @ [name])" "list_all valid_name (ls @ [name])" by simp_all
  from Cons.prems have "path_Join [abs_path rs, name] = abs_path (rs @ [name])"
     "path_Join [abs_path ls, name] = abs_path (ls @ [name])"
    by (simp_all add: path_Join_abs_name)
  with Cons.IH[OF v] Cons.prems show ?case by simp
qed

lemma abs_path_append:
  "names \<noteq> [] \<Longrightarrow>
     abs_path (ls @ names) = (if ls = [] then [] else abs_path ls) @ CHR ''/'' # join_slash names"
proof (induction names arbitrary: ls rule: rev_induct)
  case Nil
  then show ?case by simp
next
  case (snoc e names)
  show ?case
  proof (cases "names = []")
    case True
    then show ?thesis by (simp add: abs_path_snoc)
  next
    case False
    have "abs_path (ls @ names @ [e]) = abs_path ((ls @ names) @ [e])" by simp
    also have "\<dots> = abs_path (ls @ names) @ CHR ''/'' # e"
      using False by (simp only: abs_path_snoc) simp
    finally show ?thesis using snoc.IH[OF False, of ls] False
      by (simp add: join_slash_snoc)
  qed
qed

lemma upload_remote_path_abs:
  assumes "list_all valid_name rs" "list_all valid_name ls" "list_all valid_name names"
  shows "upload_remote_path (abs_path rs) (abs_path ls) (abs_path (ls @ names)) = abs_path (rs @ names)"
proof (cases "names = []")
  case True
  then show ?thesis using assms(1) by (simp add: upload_remote_path_def path_Join_abs_empty)
next
  case False
  show ?thesis
  proof (cases "ls = []")
    case True
    then have "drop (length (abs_path ls)) (abs_path (ls @ names)) = join_slash names"
      by (simp add: abs_path_def)
    then show ?thesis
      using path_Join_abs_suffix(1)[OF assms(1,3) False] by (simp add: upload_remote_path_def)
  next
    case nl: False
    have "drop (length (abs_path ls)) (abs_path (ls @ names)) = CHR ''/'' # join_slash names"
      using abs_path_append[OF False, of ls] nl by simp
    then show ?thesis
      using path_Join_abs_suffix(2)[OF assms(1,3) False] by (simp add: upload_remote_path_def)
  qed
qed

lemma abs_path_inject:
  assumes "list_all valid_name xs" "list_all valid_name ys" "abs_path xs = abs_path ys"
  shows "xs = ys"
proof -
  have "[] # (if xs = [] then [[]] else xs) = [] # (if ys = [] then [[]] else ys)"
    using split_abs_path[OF assms(1)] split_abs_path[OF assms(2)] assms(3) by simp
  moreover have "xs \<noteq> [[]]" "ys \<noteq> [[]]"
    using assms(1,2) by (auto simp: valid_name_def)
  ultimately show ?thesis by (auto split: if_splits)
qed

text \<open>
  Claim C7. Let the local root and the remote root be canonical absolute paths and
  let \<open>names\<close> be the names on the way from a root to an entry below it. The local
  root is its own absolute form. The remote path that the upload computes for the
  local path of \<open>names\<close> (the remote root joined with what is left of the local path
  after the local root) is the remote path that the download reaches through
  \<open>names\<close>, and the local path that the download pairs with it is the local path the
  upload started from. Different lists of names give different local paths and
  different remote paths: the pairing is one-to-one in both directions.
\<close>

theorem path_mapping_bijection:
  assumes "canonical_abs localRoot" and "canonical_abs remoteRoot"
    and "list_all valid_name names"
  shows "filepath_Abs cwd localRoot = localRoot
       \<and> upload_remote_path remoteRoot localRoot (walk_path localRoot names)
           = fst (download_paths remoteRoot localRoot names)
       \<and> snd (download_paths remoteRoot localRoot names) = walk_path localRoot names
       \<and> (list_all valid_name names' \<longrightarrow>
            (walk_path localRoot names' = walk_path localRoot names \<longrightarrow> names' = names)
          \<and> (fst (download_paths remoteRoot localRoot names')
               = fst (download_paths remoteRoot localRoot names) \<longrightarrow> names' = names))"
proof -
  let ?ls = "clean_elems True localRoot" and ?rs = "clean_elems True remoteRoot"
  from canonical_abs_elems[OF assms(1)] have l: "list_all valid_name ?ls" "localRoot = abs_path ?ls"
    by simp_all
  from canonical_abs_elems[OF assms(2)] have r: "list_all valid_name ?rs" "remoteRoot = abs_path ?rs"
    by simp_all
  have a: "filepath_Abs cwd localRoot = localRoot"
    using assms(1) by (simp add: filepath_Abs_def canonical_abs_def)
  have w: "walk_path localRoot xs = abs_path (?ls @ xs)" if "list_all valid_name xs" for xs
    using walk_path_abs[OF l(1) that] l(2) by simp
  have d: "download_paths remoteRoot localRoot xs = (abs_path (?rs @ xs), abs_path (?ls @ xs))"
    if "list_all valid_name xs" for xs
    using download_paths_abs[OF r(1) l(1) that] l(2) r(2) by simp
  have u: "upload_remote_path remoteRoot localRoot (walk_path localRoot names)
             = fst (download_paths remoteRoot localRoot names)"
    using upload_remote_path_abs[OF r(1) l(1) assms(3)] w[OF assms(3)] d[OF assms(3)] l(2) r(2)
    by simp
  have s: "snd (download_paths remoteRoot localRoot names) = walk_path localRoot names"
    using w[OF assms(3)] d[OF assms(3)] by simp
  have i: "list_all valid_name names' \<longrightarrow>
            (walk_path localRoot names' = walk_path localRoot names \<longrightarrow> names' = names)
          \<and> (fst (download_paths remoteRoot localRoot names')
               = fst (download_paths remoteRoot localRoot names) \<longrightarrow> names' = names)"
  proof (intro impI conjI)
    assume v: "list_all valid_name names'" and e: "walk_path localRoot names' = walk_path localRoot names"
    have "abs_path (?ls @ names') = abs_path (?ls @ names)"
      using e w[OF v] w[OF assms(3)] by simp
    then have "?ls @ names' = ?ls @ names"
      using l(1) v assms(3) by (intro abs_path_inject) simp_all
    then show "names' = names" by simp
  next
    assume v: "list_all valid_name names'"
      and e: "fst (download_paths remoteRoot localRoot names')
               = fst (download_paths remoteRoot localRoot names)"
    have "abs_path (?rs @ names') = abs_path (?rs @ names)"
      using e d[OF v] d[OF assms(3)] by simp
    then have "?rs @ names' = ?rs @ names"
      using r(1) v assms(3) by (intro abs_path_inject) simp_all
    then show "names' = names" by simp
  qed
  from a u s i show ?thesis by blast
qed

theorem path_mapping_bijection_witness:
  "canonical_abs ''/up'' \<and> canonical_abs ''/r'' \<and> list_all valid_name [''b'', ''c'']
   \<and> walk_path ''/up'' [''b'', ''c''] = ''/up/b/c''
   \<and> upload_remote_path ''/r'' ''/up'' ''/up/b/c'' = ''/r/b/c''
   \<and> download_paths ''/r'' ''/up'' [''b'', ''c''] = (''/r/b/c'', ''/up/b/c'')"
proof -
  have l: "canonical_abs ''/up''" by (simp add: canonical_abs_def path_defs)
  have r: "canonical_abs ''/r''" by (simp add: canonical_abs_def path_defs)
  have n: "list_all valid_name [''b'', ''c'']" by (simp add: valid_name_def)
  have w: "walk_path ''/up'' [''b'', ''c''] = ''/up/b/c''" by (simp add: path_defs)
  have f: "fst (download_paths ''/r'' ''/up'' [''b'', ''c'']) = ''/r/b/c''" by (simp add: path_defs)
  from path_mapping_bijection [OF l r n, of "''/''" "[''b'', ''c'']"] l r n w f
  show ?thesis by (simp add: prod_eq_iff)
qed

subsection \<open>The order in which doDelete deletes\<close>

lemma zname_set_kids [simp]: "zname (set_kids ks t) = zname t"
  by (cases t) simp

lemma zkids_set_kids [simp]: "zkids (set_kids ks t) = ks"
  by (cases t) simp

lemma zversion_set_kids [simp]: "zversion (set_kids ks t) = zversion t"
  by (cases t) simp

lemma set_kids_set_kids [simp]: "set_kids ks (set_kids ks' t) = set_kids ks t"
  by (cases t) simp

lemma zk_elems_abs_path: "list_all valid_name ds \<Longrightarrow> zk_elems (abs_path ds) = Some ds"
proof (cases "ds = []")
  case True
  then show ?thesis by (simp add: zk_elems_def abs_path_def)
next
  case False
  assume v: "list_all valid_name ds"
  with False have "abs_path ds \<noteq> ''/''" by (simp add: abs_path_eq_root)
  with v False show ?thesis by (simp add: zk_elems_def split_abs_path)
qed

lemma zfind_append:
  "zfind (ds @ es) t = (case zfind ds t of None \<Rightarrow> None | Some u \<Rightarrow> zfind es u)"
  by (induction ds arbitrary: t) (auto split: option.splits)

lemma zmodify_append: "zmodify (ds @ es) f = zmodify ds (zmodify es f)"
  by (induction ds) auto

lemma zname_zmodify:
  "(\<And>u. zname (f u) = zname u) \<Longrightarrow> zname (zmodify ds f t) = zname t"
  by (cases ds) auto

lemma find_upd_kid:
  "(\<And>u. zname (f u) = zname u) \<Longrightarrow>
     find (\<lambda>k. zname k = e) (upd_kid e f ks) = map_option f (find (\<lambda>k. zname k = e) ks)"
  by (induction ks) auto

lemma upd_kid_upd_kid:
  "(\<And>u. zname (g u) = zname u) \<Longrightarrow> upd_kid e f (upd_kid e g ks) = upd_kid e (\<lambda>u. f (g u)) ks"
  by (induction ks) auto

lemma zfind_zmodify:
  "(\<And>u. zname (f u) = zname u) \<Longrightarrow> zfind ds (zmodify ds f t) = map_option f (zfind ds t)"
proof (induction ds arbitrary: t)
  case Nil
  then show ?case by simp
next
  case (Cons e es)
  have np: "\<And>u. zname (zmodify es f u) = zname u"
    using Cons.prems by (rule zname_zmodify)
  show ?case
    using Cons.IH[OF Cons.prems] find_upd_kid[of "zmodify es f" e "zkids t", OF np]
    by (auto split: option.splits)
qed

lemma zmodify_zmodify:
  "(\<And>u. zname (g u) = zname u) \<Longrightarrow> zmodify ds f (zmodify ds g t) = zmodify ds (\<lambda>u. f (g u)) t"
proof (induction ds arbitrary: t)
  case Nil
  then show ?case by simp
next
  case (Cons e es)
  have np: "\<And>u. zname (zmodify es g u) = zname u"
    using Cons.prems by (rule zname_zmodify)
  have "(\<lambda>u. zmodify es f (zmodify es g u)) = zmodify es (\<lambda>u. f (g u))"
    using Cons.IH[OF Cons.prems] by (simp add: fun_eq_iff)
  then show ?case
    using upd_kid_upd_kid[of "zmodify es g" e "zmodify es f" "zkids t", OF np] by simp
qed

lemma zmodify_same:
  "zfind ds t = Some u \<Longrightarrow> f u = u \<Longrightarrow> zmodify ds f t = t"
proof (induction ds arbitrary: t)
  case Nil
  then show ?case by simp
next
  case (Cons e es)
  from Cons.prems(1) obtain k where k: "find (\<lambda>k. zname k = e) (zkids t) = Some k" "zfind es k = Some u"
    by (auto split: option.splits)
  have "upd_kid e (zmodify es f) ks = ks" if "find (\<lambda>k. zname k = e) ks = Some k" for ks
    using that Cons.IH[OF k(2) Cons.prems(2)] by (induction ks) (auto split: if_splits)
  with k(1) show ?case by (cases t) simp
qed

lemma zheight_kid: "k \<in> set (zkids t) \<Longrightarrow> zheight k < zheight t"
proof -
  have "k \<in> set ks \<Longrightarrow> zheight k < foldr max (map (\<lambda>k. Suc (zheight k)) ks) 0" for ks
    by (induction ks) (auto simp: less_max_iff_disj)
  then show "k \<in> set (zkids t) \<Longrightarrow> zheight k < zheight t" by (cases t) simp
qed

lemma world_same [simp]:
  "w\<lparr>remote := remote w\<rparr> = w" "s\<lparr>ztree := ztree s\<rparr> = s"
  by simp_all

lemma tree_Children_at:
  assumes "list_all valid_name ds" "zfind ds (ztree (remote w)) = Some t"
  shows "call_Children tree_conn (abs_path ds) w =
           (Inr (map zname (zkids t), stat_of t),
            w\<lparr>trace := trace w @ [Zk (Children (abs_path ds)) None]\<rparr>)"
  using assms
  by (simp add: call_Children_def tree_conn_def tree_Children_def zk_elems_abs_path err_of_def)

lemma tree_Delete_leaf:
  assumes "list_all valid_name ds" "zfind ds (ztree (remote w)) = Some t" "zkids t = []"
  shows "snd (call_Delete tree_conn (abs_path ds) (zversion t) w) =
           w\<lparr>remote := (remote w)\<lparr>ztree :=
                if ds = [] then ztree (remote w)
                else zmodify (butlast ds) (\<lambda>par. set_kids (del_kid (last ds) (zkids par)) par)
                       (ztree (remote w))\<rparr>,
             trace := trace w @ [Zk (Delete (abs_path ds) (zversion t))
                (if ds = [] then Some ErrBadArguments else None)]\<rparr>"
  using assms
  by (simp add: call_Delete_def tree_conn_def tree_Delete_def zk_elems_abs_path)

lemma doDelete_range_tree:
  assumes kid: "\<And>k v. k \<in> set ks \<Longrightarrow> zfind (ds @ [zname k]) (ztree (remote v)) = Some k \<Longrightarrow>
        doDelete n tree_conn (abs_path (ds @ [zname k])) v =
          Some (Returned, v\<lparr>remote := (remote v)\<lparr>ztree :=
                   after_delete (ds @ [zname k]) (ztree (remote v))\<rparr>,
                 trace := trace v @ delete_events (ds @ [zname k]) k\<rparr>)"
    and ds: "list_all valid_name ds"
    and names: "\<forall>k\<in>set ks. valid_name (zname k)"
  shows "zfind ds (ztree (remote w)) = Some u \<Longrightarrow> zkids u = ks \<Longrightarrow>
     doDelete_range n tree_conn (abs_path ds) (map zname ks) w =
       Some (Returned, w\<lparr>remote := (remote w)\<lparr>ztree :=
                zmodify ds (set_kids []) (ztree (remote w))\<rparr>,
              trace := trace w @ concat (map (\<lambda>k. delete_events (ds @ [zname k]) k) ks)\<rparr>)"
  using kid names
proof (induction ks arbitrary: w u)
  case Nil
  have "set_kids [] u = u" using Nil.prems(2) by (cases u) simp
  then have "zmodify ds (set_kids []) (ztree (remote w)) = ztree (remote w)"
    using Nil.prems(1) by (rule zmodify_same[rotated])
  then show ?case by simp
next
  case (Cons k ks)
  let ?e = "zname k"
  let ?T = "ztree (remote w)"
  let ?D = "\<lambda>par. set_kids (del_kid ?e (zkids par)) par"
  let ?C = "\<lambda>t. set_kids (upd_kid ?e (set_kids []) (zkids t)) t"
  have ve: "valid_name ?e" using Cons.prems(4) by simp
  have pj: "path_Join [abs_path ds, ?e] = abs_path (ds @ [?e])"
    using ds ve by (rule path_Join_abs_name)
  have fk: "zfind (ds @ [?e]) ?T = Some k"
    using Cons.prems(1,2) by (simp add: zfind_append)
  let ?T1 = "after_delete (ds @ [?e]) ?T"
  let ?w1 = "w\<lparr>remote := (remote w)\<lparr>ztree := ?T1\<rparr>,
                 trace := trace w @ delete_events (ds @ [?e]) k\<rparr>"
  have run1: "doDelete n tree_conn (abs_path (ds @ [?e])) w = Some (Returned, ?w1)"
    using Cons.prems(3)[of k w] fk by simp
  have T1: "?T1 = zmodify ds (\<lambda>u. ?D (?C u)) ?T"
  proof -
    have "zmodify (ds @ [?e]) (set_kids []) ?T = zmodify ds ?C ?T"
      by (simp add: zmodify_append fun_eq_iff)
    then have "?T1 = zmodify ds ?D (zmodify ds ?C ?T)"
      by (simp add: after_delete_def)
    also have "\<dots> = zmodify ds (\<lambda>u. ?D (?C u)) ?T"
      by (rule zmodify_zmodify) simp
    finally show ?thesis .
  qed
  have DC: "?D (?C u) = set_kids ks u"
    using Cons.prems(2) by simp
  have f1: "zfind ds (ztree (remote ?w1)) = Some (set_kids ks u)"
    using Cons.prems(1) DC by (simp add: T1 zfind_zmodify)
  have k1: "zkids (set_kids ks u) = ks" by simp
  have kid': "\<And>k' v. k' \<in> set ks \<Longrightarrow> zfind (ds @ [zname k']) (ztree (remote v)) = Some k' \<Longrightarrow>
        doDelete n tree_conn (abs_path (ds @ [zname k'])) v =
          Some (Returned, v\<lparr>remote := (remote v)\<lparr>ztree :=
                   after_delete (ds @ [zname k']) (ztree (remote v))\<rparr>,
                 trace := trace v @ delete_events (ds @ [zname k']) k'\<rparr>)"
    using Cons.prems(3) by simp
  have names': "\<forall>k\<in>set ks. valid_name (zname k)" using Cons.prems(4) by simp
  have run2: "doDelete_range n tree_conn (abs_path ds) (map zname ks) ?w1 =
       Some (Returned, ?w1\<lparr>remote := (remote ?w1)\<lparr>ztree :=
                zmodify ds (set_kids []) (ztree (remote ?w1))\<rparr>,
              trace := trace ?w1 @ concat (map (\<lambda>k. delete_events (ds @ [zname k]) k) ks)\<rparr>)"
    using f1 k1 kid' names' by (rule Cons.IH)
  have T2: "zmodify ds (set_kids []) ?T1 = zmodify ds (set_kids []) ?T"
  proof -
    have "zmodify ds (set_kids []) ?T1 = zmodify ds (\<lambda>u. set_kids [] (?D (?C u))) ?T"
      unfolding T1 by (rule zmodify_zmodify) simp
    then show ?thesis by simp
  qed
  show ?case
    using run1 run2 pj T2 by simp
qed

lemma doDelete_tree:
  "wf_node t \<Longrightarrow> list_all valid_name ds \<Longrightarrow> zfind ds (ztree (remote w)) = Some t \<Longrightarrow>
   zheight t < n \<Longrightarrow>
     doDelete n tree_conn (abs_path ds) w =
       Some (Returned, w\<lparr>remote := (remote w)\<lparr>ztree := after_delete ds (ztree (remote w))\<rparr>,
              trace := trace w @ delete_events ds t\<rparr>)"
proof (induction t arbitrary: ds w n)
  case (ZNode nm d v m ks)
  let ?t = "ZNode nm d v m ks"
  let ?T = "ztree (remote w)"
  from ZNode.prems(4) obtain n' where n: "n = Suc n'" by (cases n) auto
  let ?w0 = "w\<lparr>trace := trace w @ [Zk (Children (abs_path ds)) None]\<rparr>"
  have ch: "call_Children tree_conn (abs_path ds) w = (Inr (map zname ks, stat_of ?t), ?w0)"
    using tree_Children_at[OF ZNode.prems(2,3)] by simp
  have kid: "doDelete n' tree_conn (abs_path (ds @ [zname k])) x =
          Some (Returned, x\<lparr>remote := (remote x)\<lparr>ztree :=
                   after_delete (ds @ [zname k]) (ztree (remote x))\<rparr>,
                 trace := trace x @ delete_events (ds @ [zname k]) k\<rparr>)"
    if "k \<in> set ks" "zfind (ds @ [zname k]) (ztree (remote x)) = Some k" for k x
  proof (rule ZNode.IH)
    show "k \<in> set ks" by (rule that(1))
    show "wf_node k" using ZNode.prems(1) that(1) by simp
    show "list_all valid_name (ds @ [zname k])" using ZNode.prems(1,2) that(1) by simp
    show "zfind (ds @ [zname k]) (ztree (remote x)) = Some k" by (rule that(2))
    have "zheight k < zheight ?t" using zheight_kid[of k ?t] that(1) by simp
    then show "zheight k < n'" using ZNode.prems(4) n by simp
  qed
  have names: "\<forall>k\<in>set ks. valid_name (zname k)" using ZNode.prems(1) by simp
  have f0: "zfind ds (ztree (remote ?w0)) = Some ?t" using ZNode.prems(3) by simp
  let ?w2 = "?w0\<lparr>remote := (remote ?w0)\<lparr>ztree :=
                zmodify ds (set_kids []) (ztree (remote ?w0))\<rparr>,
              trace := trace ?w0 @ concat (map (\<lambda>k. delete_events (ds @ [zname k]) k) ks)\<rparr>"
  have rng: "doDelete_range n' tree_conn (abs_path ds) (map zname ks) ?w0 = Some (Returned, ?w2)"
    by (rule doDelete_range_tree[where u = ?t, OF kid ZNode.prems(2) names f0]) simp_all
  let ?w3 = "emit (LogPrintf ''Will delete %s'' [AStr (abs_path ds)]) ?w2"
  have f3: "zfind ds (ztree (remote ?w3)) = Some (set_kids [] ?t)"
    using ZNode.prems(3) by (simp add: zfind_zmodify)
  have del: "snd (call_Delete tree_conn (abs_path ds) (zversion (set_kids [] ?t)) ?w3) =
           ?w3\<lparr>remote := (remote ?w3)\<lparr>ztree :=
                if ds = [] then ztree (remote ?w3)
                else zmodify (butlast ds) (\<lambda>par. set_kids (del_kid (last ds) (zkids par)) par)
                       (ztree (remote ?w3))\<rparr>,
             trace := trace ?w3 @ [Zk (Delete (abs_path ds) (zversion (set_kids [] ?t)))
                (if ds = [] then Some ErrBadArguments else None)]\<rparr>"
    by (rule tree_Delete_leaf[OF ZNode.prems(2) f3]) simp
  show ?case
    using ch rng del by (simp add: n after_delete_def stat_of_def)
qed


lemma delete_order_append [simp]: "delete_order (a @ b) = delete_order a @ delete_order b"
  by (simp add: delete_order_def)

lemma delete_answers_append [simp]: "delete_answers (a @ b) = delete_answers a @ delete_answers b"
  by (simp add: delete_answers_def)

lemma delete_order_concat: "delete_order (concat xss) = concat (map delete_order xss)"
  by (induction xss) (simp_all add: delete_order_def)

lemma delete_answers_concat: "delete_answers (concat xss) = concat (map delete_answers xss)"
  by (induction xss) (simp_all add: delete_answers_def)

lemma delete_order_Cons [simp]:
  "delete_order [] = []"
  "delete_order (Zk (Delete p v) r # tr) = p # delete_order tr"
  "delete_order (Zk (Children p) r # tr) = delete_order tr"
  "delete_order (LogPrintf f a # tr) = delete_order tr"
  by (simp_all add: delete_order_def)

lemma delete_answers_Cons [simp]:
  "delete_answers [] = []"
  "delete_answers (Zk (Delete p v) r # tr) = r # delete_answers tr"
  "delete_answers (Zk (Children p) r # tr) = delete_answers tr"
  "delete_answers (LogPrintf f a # tr) = delete_answers tr"
  by (simp_all add: delete_answers_def)

lemma delete_order_events: "delete_order (delete_events ds t) = map abs_path (postorder ds t)"
proof (induction t arbitrary: ds)
  case (ZNode nm d v m ks)
  have "map (\<lambda>k. delete_order (delete_events (ds @ [zname k]) k)) ks
      = map (\<lambda>k. map abs_path (postorder (ds @ [zname k]) k)) ks"
    by (rule map_ext) (simp add: ZNode.IH)
  then have "delete_order (concat (map (\<lambda>k. delete_events (ds @ [zname k]) k) ks))
      = map abs_path (concat (map (\<lambda>k. postorder (ds @ [zname k]) k) ks))"
    by (simp only: delete_order_concat map_concat map_map comp_def)
  then show ?case by simp
qed

lemma delete_answers_events:
  "a \<in> set (delete_answers (delete_events ds t)) \<Longrightarrow> a = None \<or> a = Some ErrBadArguments"
proof (induction t arbitrary: ds)
  case (ZNode nm d v m ks)
  have "set (delete_answers (delete_events ds (ZNode nm d v m ks)))
      = (\<Union>k\<in>set ks. set (delete_answers (delete_events (ds @ [zname k]) k)))
          \<union> {if ds = [] then Some ErrBadArguments else None}"
    by (simp add: delete_answers_concat)
  with ZNode.prems
  have "(\<exists>k\<in>set ks. a \<in> set (delete_answers (delete_events (ds @ [zname k]) k)))
      \<or> a = (if ds = [] then Some ErrBadArguments else None)"
    by blast
  then show ?case
  proof
    assume "\<exists>k\<in>set ks. a \<in> set (delete_answers (delete_events (ds @ [zname k]) k))"
    then obtain k where "k \<in> set ks" "a \<in> set (delete_answers (delete_events (ds @ [zname k]) k))"
      by blast
    then show ?thesis by (rule ZNode.IH)
  next
    assume "a = (if ds = [] then Some ErrBadArguments else None)"
    then show ?thesis by (simp split: if_splits)
  qed
qed

lemma children_first_append:
  "children_first (xs @ ys) \<longleftrightarrow>
     children_first xs \<and> children_first ys \<and> (\<forall>x\<in>set xs. \<forall>y\<in>set ys. \<not> strict_prefix x y)"
  by (induction xs) auto

lemma postorder_prefix: "x \<in> set (postorder ds t) \<Longrightarrow> prefix ds x"
proof (induction t arbitrary: ds)
  case (ZNode nm d v m ks)
  from ZNode.prems have "x = ds \<or> (\<exists>k\<in>set ks. x \<in> set (postorder (ds @ [zname k]) k))"
    by auto
  then show ?case
  proof
    assume "x = ds"
    then show ?thesis by simp
  next
    assume "\<exists>k\<in>set ks. x \<in> set (postorder (ds @ [zname k]) k)"
    then obtain k where k: "k \<in> set ks" "x \<in> set (postorder (ds @ [zname k]) k)" by blast
    from ZNode.IH[OF k] have "prefix (ds @ [zname k]) x" .
    then show ?thesis using append_prefixD by blast
  qed
qed

lemma children_first_blocks:
  assumes "distinct (map zname ks)"
    and "\<And>k. k \<in> set ks \<Longrightarrow> children_first (postorder (ds @ [zname k]) k)"
  shows "children_first (concat (map (\<lambda>k. postorder (ds @ [zname k]) k) ks))"
  using assms
proof (induction ks)
  case Nil
  then show ?case by simp
next
  case (Cons k ks)
  have rest: "children_first (concat (map (\<lambda>k. postorder (ds @ [zname k]) k) ks))"
    using Cons.prems by (intro Cons.IH) simp_all
  have blk: "children_first (postorder (ds @ [zname k]) k)"
    using Cons.prems(2) by simp
  have cross: "\<not> strict_prefix x y"
    if "x \<in> set (postorder (ds @ [zname k]) k)"
       "y \<in> set (concat (map (\<lambda>k. postorder (ds @ [zname k]) k) ks))" for x y
  proof
    assume sp: "strict_prefix x y"
    from that(2) obtain k' where k': "k' \<in> set ks" "y \<in> set (postorder (ds @ [zname k']) k')"
      by auto
    from postorder_prefix[OF that(1)] obtain r where x: "x = ds @ zname k # r"
      by (auto simp: prefix_def)
    from postorder_prefix[OF k'(2)] obtain r' where y: "y = ds @ zname k' # r'"
      by (auto simp: prefix_def)
    from sp x y have "zname k = zname k'" by (auto simp: strict_prefix_def prefix_def)
    with k'(1) Cons.prems(1) show False by auto
  qed
  show ?case
    using rest blk cross by (simp add: children_first_append)
qed

lemma children_first_postorder: "wf_node t \<Longrightarrow> children_first (postorder ds t)"
proof (induction t arbitrary: ds)
  case (ZNode nm d v m ks)
  have blocks: "children_first (concat (map (\<lambda>k. postorder (ds @ [zname k]) k) ks))"
  proof (rule children_first_blocks)
    show "distinct (map zname ks)" using ZNode.prems by simp
    show "children_first (postorder (ds @ [zname k]) k)" if "k \<in> set ks" for k
      using ZNode.IH[OF that] ZNode.prems that by simp
  qed
  have cross: "\<not> strict_prefix x ds"
    if "x \<in> set (concat (map (\<lambda>k. postorder (ds @ [zname k]) k) ks))" for x
  proof
    assume sp: "strict_prefix x ds"
    from that obtain k where "k \<in> set ks" "x \<in> set (postorder (ds @ [zname k]) k)" by auto
    from postorder_prefix[OF this(2)] have "length (ds @ [zname k]) \<le> length x"
      by (rule prefix_length_le)
    moreover from sp have "length x < length ds" by (rule prefix_length_less)
    ultimately show False by simp
  qed
  show ?case using blocks cross by (simp add: children_first_append)
qed

lemma children_first_nth:
  "children_first xs \<Longrightarrow> i < length xs \<Longrightarrow> j < length xs \<Longrightarrow>
     strict_prefix (xs ! i) (xs ! j) \<Longrightarrow> j < i"
proof (induction xs arbitrary: i j)
  case Nil
  then show ?case by simp
next
  case (Cons x xs)
  show ?case
  proof (cases i)
    case 0
    show ?thesis
    proof (cases j)
      case 0
      with \<open>i = 0\<close> Cons.prems(4) show ?thesis by simp
    next
      case (Suc j')
      with Cons.prems(3) have "xs ! j' \<in> set xs" by simp
      with Cons.prems(1,4) \<open>i = 0\<close> Suc show ?thesis by auto
    qed
  next
    case (Suc i')
    show ?thesis
    proof (cases j)
      case 0
      with Suc show ?thesis by simp
    next
      case (Suc j')
      have "j' < i'"
      proof (rule Cons.IH)
        show "children_first xs" using Cons.prems(1) by simp
        show "i' < length xs" using Cons.prems(2) \<open>i = Suc i'\<close> by simp
        show "j' < length xs" using Cons.prems(3) Suc by simp
        show "strict_prefix (xs ! i') (xs ! j')" using Cons.prems(4) \<open>i = Suc i'\<close> Suc by simp
      qed
      with Suc \<open>i = Suc i'\<close> show ?thesis by simp
    qed
  qed
qed

text \<open>
  Claim C5. Let the namespace hold a well-formed subtree at the path with elements
  \<open>ds\<close>. With a bound above the height of the subtree, \<open>doDelete\<close> on that path
  returns; its \<open>Delete\<close> calls are, in order, for the nodes of the subtree with every
  node after all nodes below it (so whenever one deleted node is a proper ancestor
  of another, the call for the descendant comes first), and none of them is answered
  that the node still has children.
\<close>

theorem doDelete_children_before_parent:
  assumes "wf_node t" and "list_all valid_name ds"
    and "zfind ds (ztree (remote w)) = Some t" and "zheight t < n"
  shows "\<exists>w1. doDelete n tree_conn (abs_path ds) w = Some (Returned, w1)
           \<and> delete_order (drop (length (trace w)) (trace w1)) = map abs_path (postorder ds t)
           \<and> Some ErrNotEmpty \<notin> set (delete_answers (drop (length (trace w)) (trace w1)))
           \<and> (\<forall>i<length (postorder ds t). \<forall>j<length (postorder ds t).
                 strict_prefix (postorder ds t ! i) (postorder ds t ! j) \<longrightarrow> j < i)"
proof -
  let ?w1 = "w\<lparr>remote := (remote w)\<lparr>ztree := after_delete ds (ztree (remote w))\<rparr>,
              trace := trace w @ delete_events ds t\<rparr>"
  have run: "doDelete n tree_conn (abs_path ds) w = Some (Returned, ?w1)"
    using assms by (rule doDelete_tree)
  have tr: "drop (length (trace w)) (trace ?w1) = delete_events ds t" by simp
  have ord: "delete_order (drop (length (trace w)) (trace ?w1)) = map abs_path (postorder ds t)"
    unfolding tr by (rule delete_order_events)
  have ans: "Some ErrNotEmpty \<notin> set (delete_answers (drop (length (trace w)) (trace ?w1)))"
    unfolding tr using delete_answers_events[of "Some ErrNotEmpty" ds t] by auto
  have cf: "children_first (postorder ds t)"
    using assms(1) by (rule children_first_postorder)
  have idx: "\<forall>i<length (postorder ds t). \<forall>j<length (postorder ds t).
                 strict_prefix (postorder ds t ! i) (postorder ds t ! j) \<longrightarrow> j < i"
    using children_first_nth[OF cf] by blast
  from run ord ans idx show ?thesis by blast
qed

theorem doDelete_children_before_parent_witness:
  "\<exists>w1. doDelete 3 tree_conn ''/r'' (sample_world []) = Some (Returned, w1)
      \<and> delete_order (trace w1) = [''/r/a'', ''/r/b/c'', ''/r/b'', ''/r'']"
proof -
  let ?t = "ZNode ''r'' [] 0 5
          [ZNode ''a'' [1, 2] 3 1500 [],
           ZNode ''b'' [] 0 7 [ZNode ''c'' [9] 1 8 []]]"
  have wf: "wf_node ?t" by (simp add: valid_name_def)
  have ds: "list_all valid_name [''r'']" by (simp add: valid_name_def)
  have f: "zfind [''r''] (ztree (remote (sample_world []))) = Some ?t"
    by (simp add: sample_defs)
  have h: "zheight ?t < 3" by simp
  have p: "map abs_path (postorder [''r''] ?t) = [''/r/a'', ''/r/b/c'', ''/r/b'', ''/r'']"
    by (simp add: abs_path_def)
  have a: "abs_path [''r''] = ''/r''" by (simp add: abs_path_def)
  have tr: "trace (sample_world []) = []" by (simp add: sample_defs)
  from doDelete_children_before_parent [OF wf ds f h]
  show ?thesis unfolding p a tr by auto
qed

end
